theory Spec2Isabelle
  imports Main "HOL-Library.Word" "HOL-Library.Signed_Division"
begin

unbundle bit_operations_syntax

section \<open>PCM fixtures: data model\<close>

text \<open>
  The Go package \<open>agar\<close> synthesizes raw PCM buffers and compares two of them.
  A buffer is a \<open>[]byte\<close>: a list of 8-bit words. Go's \<open>int\<close> is 64 bits wide and
  its arithmetic wraps around. A value of type \<open>int\<close> is carried as an \<open>int\<close>, and the
  products, sums and differences that the parameters can take out of the 64-bit range
  are reduced to it by \<open>wrap64\<close>, as the machine does: the sample count, the byte
  count and the offsets of the synthesizer, the length tolerance of the lossy
  comparator, the frame size and the loop arithmetic of the diff reporter. What is
  bounded by twice the length of a buffer (a length, an index below it, a count of
  bytes or samples of a buffer) is computed exactly: a buffer that is held in memory
  has far fewer than \<open>2^62\<close> bytes. The generator state (\<open>uint64\<close>) and the samples
  (\<open>int8\<close>, \<open>int16\<close>, \<open>int32\<close>) are machine words, with their wrap-around. A
  slice's capacity is taken to be its length, and \<open>make\<close> is taken to succeed for
  every length that is not negative (running out of memory is not modelled). A
  run-time panic (index or slice bounds out of range, integer division by zero,
  \<open>make\<close> with a negative length) is the value \<open>None\<close> of a function that returns
  a value, and the status \<open>Panicked\<close> of a comparator.
\<close>

type_synonym byte = "8 word"

definition BitDepth4 :: int where "BitDepth4 = 4"
definition BitDepth8 :: int where "BitDepth8 = 8"
definition BitDepth12 :: int where "BitDepth12 = 12"
definition BitDepth16 :: int where "BitDepth16 = 16"
definition BitDepth20 :: int where "BitDepth20 = 20"
definition BitDepth24 :: int where "BitDepth24 = 24"
definition BitDepth32 :: int where "BitDepth32 = 32"

text \<open>
  Modelled from the spec: the constant \<open>bitsPerByte\<close> is used by the source but declared
  in a file that is not part of it; the spec gives the fallback as \<open>bitDepth / 8\<close>.
\<close>

definition bitsPerByte :: int where "bitsPerByte = 8"

definition xorshiftSeed :: "64 word" where "xorshiftSeed = 0x12345678"
definition xorshiftShiftA :: nat where "xorshiftShiftA = 13"
definition xorshiftShiftB :: nat where "xorshiftShiftB = 7"
definition xorshiftShiftC :: nat where "xorshiftShiftC = 17"

definition defaultMaxDiffSamples :: int where "defaultMaxDiffSamples = 5"
definition lossyLargeDiffPct :: int where "lossyLargeDiffPct = 100"

text \<open>
  The value of a 64-bit \<open>int\<close> after an operation whose exact result is \<open>x\<close>, and
  \<open>*\<close>, \<open>+\<close>, \<open>-\<close> on \<open>int\<close>.
\<close>

definition wrap64 :: "int \<Rightarrow> int" where
  "wrap64 x = sint (word_of_int x :: 64 word)"

definition go_mul :: "int \<Rightarrow> int \<Rightarrow> int" where
  "go_mul a b = wrap64 (a * b)"

definition go_add :: "int \<Rightarrow> int \<Rightarrow> int" where
  "go_add a b = wrap64 (a + b)"

definition go_sub :: "int \<Rightarrow> int \<Rightarrow> int" where
  "go_sub a b = wrap64 (a - b)"

text \<open>
  Go's \<open>/\<close> on \<open>int\<close> truncates towards zero (\<open>sdiv\<close>) and panics on a zero
  divisor; \<open>go_div\<close> is the division by a variable, which can be zero. The dividends
  of this package are indices of a buffer, its length, or a bit depth divided by the
  constant 8, so the one quotient that does not fit (the least \<open>int\<close> by \<open>-1\<close>) does
  not occur.
\<close>

definition go_div :: "int \<Rightarrow> int \<Rightarrow> int option" where
  "go_div a b = (if b = 0 then None else Some (a sdiv b))"

definition len :: "'a list \<Rightarrow> int" where
  "len xs = int (length xs)"

text \<open>\<open>make([]byte, n)\<close>: a zeroed buffer, a panic when \<open>n\<close> is negative.\<close>

definition make_bytes :: "int \<Rightarrow> byte list option" where
  "make_bytes n = (if n < 0 then None else Some (replicate (nat n) 0))"

text \<open>\<open>buf[i] = v\<close>.\<close>

definition put_byte :: "byte list \<Rightarrow> int \<Rightarrow> byte \<Rightarrow> byte list option" where
  "put_byte buf i v =
     (if 0 \<le> i \<and> i < len buf then Some (buf[nat i := v]) else None)"

text \<open>\<open>buf[i]\<close>.\<close>

definition get_byte :: "byte list \<Rightarrow> int \<Rightarrow> byte option" where
  "get_byte buf i = (if 0 \<le> i \<and> i < len buf then Some (buf ! nat i) else None)"

text \<open>\<open>s[lo:hi]\<close>, a slice expression on a byte slice.\<close>

definition go_slice :: "byte list \<Rightarrow> int \<Rightarrow> int \<Rightarrow> byte list option" where
  "go_slice s lo hi =
     (if 0 \<le> lo \<and> lo \<le> hi \<and> hi \<le> len s
      then Some (take (nat hi - nat lo) (drop (nat lo) s)) else None)"

text \<open>
  \<open>binary.LittleEndian.PutUint16(buf[off:], v)\<close> and \<open>PutUint32\<close>: the slice expression
  and the bounds check of the library come first, then the bytes, least significant
  first. \<open>Uint16(buf[off:])\<close> reads two bytes the same way.
\<close>

definition PutUint16 :: "byte list \<Rightarrow> int \<Rightarrow> 16 word \<Rightarrow> byte list option" where
  "PutUint16 buf off v =
     (if 0 \<le> off \<and> off + 1 < len buf
      then Some (buf[nat off := ucast v, nat off + 1 := ucast (drop_bit 8 v)])
      else None)"

definition PutUint32 :: "byte list \<Rightarrow> int \<Rightarrow> 32 word \<Rightarrow> byte list option" where
  "PutUint32 buf off v =
     (if 0 \<le> off \<and> off + 3 < len buf
      then Some (buf[nat off := ucast v, nat off + 1 := ucast (drop_bit 8 v),
                     nat off + 2 := ucast (drop_bit 16 v), nat off + 3 := ucast (drop_bit 24 v)])
      else None)"

definition Uint16 :: "byte list \<Rightarrow> int \<Rightarrow> 16 word option" where
  "Uint16 buf off =
     (if 0 \<le> off \<and> off + 1 < len buf
      then Some (ucast (buf ! nat off) OR push_bit 8 (ucast (buf ! (nat off + 1))))
      else None)"

section \<open>Bytes per sample\<close>

definition PCMBytesPerSample :: "int \<Rightarrow> int" where
  "PCMBytesPerSample bitDepth =
     (if bitDepth = BitDepth4 \<or> bitDepth = BitDepth8 then 1
      else if bitDepth = BitDepth12 \<or> bitDepth = BitDepth16 then 2
      else if bitDepth = BitDepth20 \<or> bitDepth = BitDepth24 then 3
      else if bitDepth = BitDepth32 then 4
      else bitDepth sdiv bitsPerByte)"

section \<open>The synthesizer\<close>

definition xorshift :: "64 word \<Rightarrow> 64 word" where
  "xorshift seed =
     (let s1 = seed XOR push_bit xorshiftShiftA seed;
          s2 = s1 XOR drop_bit xorshiftShiftB s1;
          s3 = s2 XOR push_bit xorshiftShiftC s2
      in s3)"

text \<open>
  The \<open>switch bitDepth\<close> of the loop body. The conversions \<open>int8(x)\<close>, \<open>int16(x)\<close>,
  \<open>int32(x)\<close> of a \<open>uint64\<close> keep the low bits (\<open>ucast\<close>); \<open>byte(x)\<close> and \<open>uint16(x)\<close>
  of a signed value keep the bit pattern; \<open>>>\<close> on an \<open>int32\<close> is the arithmetic shift.
\<close>

definition write_sample :: "int \<Rightarrow> 64 word \<Rightarrow> int \<Rightarrow> byte list \<Rightarrow> byte list option" where
  "write_sample bitDepth seed offset buf =
     (if bitDepth = BitDepth4 then
        put_byte buf offset (ucast ((ucast (seed mod 14 - 7)) :: 8 word))
      else if bitDepth = BitDepth8 then
        put_byte buf offset (ucast ((ucast (seed mod 240 - 120)) :: 8 word))
      else if bitDepth = BitDepth12 then
        (let val = (ucast (seed mod 4000 - 2000) :: 16 word)
         in PutUint16 buf offset (ucast val))
      else if bitDepth = BitDepth16 then
        (let val = (ucast (seed mod 60000 - 30000) :: 16 word)
         in PutUint16 buf offset (ucast val))
      else if bitDepth = BitDepth20 then
        (let val = (ucast (seed mod 1000000 - 500000) :: 32 word)
         in Option.bind (put_byte buf offset (ucast val)) (\<lambda>b1.
            Option.bind (put_byte b1 (offset + 1) (ucast (signed_drop_bit (nat bitsPerByte) val))) (\<lambda>b2.
            put_byte b2 (offset + 2) (ucast (signed_drop_bit (nat (2 * bitsPerByte)) val)))))
      else if bitDepth = BitDepth24 then
        (let val = (ucast (seed mod 14000000 - 7000000) :: 32 word)
         in Option.bind (put_byte buf offset (ucast val)) (\<lambda>b1.
            Option.bind (put_byte b1 (offset + 1) (ucast (signed_drop_bit (nat bitsPerByte) val))) (\<lambda>b2.
            put_byte b2 (offset + 2) (ucast (signed_drop_bit (nat (2 * bitsPerByte)) val)))))
      else if bitDepth = BitDepth32 then
        (let val = (ucast (seed mod 1800000000 - 900000000) :: 32 word)
         in PutUint32 buf offset (ucast val))
      else Some buf)"

text \<open>
  \<open>for sampleIdx := range numSamples\<close>: the loop over the indices \<open>0, ..., numSamples - 1\<close>,
  carrying the generator state and the buffer.
\<close>

fun gen_loop :: "int \<Rightarrow> int \<Rightarrow> nat list \<Rightarrow> 64 word \<Rightarrow> byte list \<Rightarrow> byte list option" where
  "gen_loop bitDepth bytesPerSample [] seed buf = Some buf"
| "gen_loop bitDepth bytesPerSample (sampleIdx # rest) seed buf =
     (let seed' = xorshift seed;
          offset = go_mul (int sampleIdx) bytesPerSample
      in case write_sample bitDepth seed' offset buf of
           None \<Rightarrow> None
         | Some buf' \<Rightarrow> gen_loop bitDepth bytesPerSample rest seed' buf')"

definition GenerateWhiteNoise :: "int \<Rightarrow> int \<Rightarrow> int \<Rightarrow> int \<Rightarrow> byte list option" where
  "GenerateWhiteNoise sampleRate bitDepth channels durationSec =
     (let numSamples = go_mul (go_mul sampleRate durationSec) channels;
          bytesPerSample = PCMBytesPerSample bitDepth
      in case make_bytes (go_mul numSamples bytesPerSample) of
           None \<Rightarrow> None
         | Some buf \<Rightarrow>
             gen_loop bitDepth bytesPerSample [0..<nat numSamples] xorshiftSeed buf)"

section \<open>The test handle\<close>

text \<open>
  The comparators report through \<open>*testing.T\<close>. Its state is the failure flag and the
  messages printed so far, oldest first; a message keeps the arguments of its format
  string. \<open>Errorf\<close> prints and marks the test failed, \<open>Logf\<close> only prints; both return
  to the caller. The two percentages printed with \<open>%.2f\<close> are floating-point quotients
  of two arguments that the message keeps, and are left out.
\<close>

datatype msg =
    UnsupportedDepth int
  | LengthMismatch int int int int
  | LengthDiff int int int
  | LossyMismatch int int int "16 word"
  | PCMMismatch string int int int int
  | FrameDiff string int "byte list" "byte list"

record testing_T =
  failed :: bool
  messages :: "msg list"

definition new_T :: testing_T where
  "new_T = \<lparr>failed = False, messages = []\<rparr>"

definition Errorf :: "testing_T \<Rightarrow> msg \<Rightarrow> testing_T" where
  "Errorf t m = t\<lparr>failed := True, messages := messages t @ [m]\<rparr>"

definition Logf :: "testing_T \<Rightarrow> msg \<Rightarrow> testing_T" where
  "Logf t m = t\<lparr>messages := messages t @ [m]\<rparr>"

text \<open>
  How a call ends: it returns, it panics, or the fuel of its \<open>for\<close> loop ran out, the
  loop of \<open>ShowDiffs\<close> being the one loop of the package that can run forever.
\<close>

datatype status = Returned | Panicked | OutOfFuel

section \<open>The diagnostic diff reporter\<close>

text \<open>
  \<open>for idx := 0; idx < min(len(expected), len(actual))-frameSize && shown < maxDiffs;
  idx += frameSize\<close>, one unit of fuel per iteration.
\<close>

fun show_loop :: "nat \<Rightarrow> string \<Rightarrow> byte list \<Rightarrow> byte list \<Rightarrow> int \<Rightarrow> int \<Rightarrow> int \<Rightarrow> int
    \<Rightarrow> testing_T \<Rightarrow> status \<times> testing_T" where
  "show_loop 0 label expected actual frameSize maxDiffs idx shown t =
     (if idx < go_sub (min (len expected) (len actual)) frameSize \<and> shown < maxDiffs
      then (OutOfFuel, t) else (Returned, t))"
| "show_loop (Suc fuel) label expected actual frameSize maxDiffs idx shown t =
     (if idx < go_sub (min (len expected) (len actual)) frameSize \<and> shown < maxDiffs then
        (case go_slice expected idx (go_add idx frameSize) of
           None \<Rightarrow> (Panicked, t)
         | Some expectedFrame \<Rightarrow>
             (case go_slice actual idx (go_add idx frameSize) of
                None \<Rightarrow> (Panicked, t)
              | Some actualFrame \<Rightarrow>
                  if expectedFrame \<noteq> actualFrame then
                    (case go_div idx frameSize of
                       None \<Rightarrow> (Panicked, t)
                     | Some sampleIdx \<Rightarrow>
                         show_loop fuel label expected actual frameSize maxDiffs
                           (go_add idx frameSize) (shown + 1)
                           (Logf t (FrameDiff label sampleIdx expectedFrame actualFrame)))
                  else
                    show_loop fuel label expected actual frameSize maxDiffs
                      (go_add idx frameSize) shown t))
      else (Returned, t))"

definition ShowDiffs :: "nat \<Rightarrow> testing_T \<Rightarrow> string \<Rightarrow> byte list \<Rightarrow> byte list \<Rightarrow> int \<Rightarrow> int \<Rightarrow> int
    \<Rightarrow> status \<times> testing_T" where
  "ShowDiffs fuel t label expected actual bitDepth channels maxDiffs =
     (let bytesPerSample = PCMBytesPerSample bitDepth;
          frameSize = go_mul bytesPerSample channels
      in show_loop fuel label expected actual frameSize maxDiffs 0 0 t)"

section \<open>The exact comparator\<close>

fun lossless_loop :: "byte list \<Rightarrow> byte list \<Rightarrow> nat list \<Rightarrow> int \<times> int \<Rightarrow> (int \<times> int) option" where
  "lossless_loop expected actual [] st = Some st"
| "lossless_loop expected actual (idx # rest) (differences, firstDiff) =
     (case get_byte expected (int idx) of
        None \<Rightarrow> None
      | Some e \<Rightarrow>
          (case get_byte actual (int idx) of
             None \<Rightarrow> None
           | Some a \<Rightarrow>
               if e \<noteq> a then
                 lossless_loop expected actual rest
                   (differences + 1, if firstDiff = - 1 then int idx else firstDiff)
               else lossless_loop expected actual rest (differences, firstDiff)))"

definition CompareLosslessSamples :: "nat \<Rightarrow> testing_T \<Rightarrow> string \<Rightarrow> byte list \<Rightarrow> byte list \<Rightarrow> int \<Rightarrow> int
    \<Rightarrow> status \<times> testing_T" where
  "CompareLosslessSamples fuel t label expected actual bitDepth channels =
     (let minLen = min (len expected) (len actual)
      in case lossless_loop expected actual [0..<nat minLen] (0, - 1) of
           None \<Rightarrow> (Panicked, t)
         | Some (differences, firstDiff) \<Rightarrow>
             if differences > 0 then
               (let bytesPerSample = PCMBytesPerSample bitDepth
                in case go_div firstDiff bytesPerSample of
                     None \<Rightarrow> (Panicked, t)
                   | Some q \<Rightarrow>
                       (case go_div q channels of
                          None \<Rightarrow> (Panicked, t)
                        | Some sampleIndex \<Rightarrow>
                            ShowDiffs fuel
                              (Errorf t (PCMMismatch label differences minLen firstDiff sampleIndex))
                              label expected actual bitDepth channels defaultMaxDiffSamples))
             else (Returned, t))"

section \<open>The lossy comparator\<close>

text \<open>
  The body of the sample loop after the two reads: \<open>sampleA\<close> and \<open>sampleB\<close> are
  \<open>int16\<close>, so \<open>sampleA - sampleB\<close> and \<open>-diff\<close> wrap around, and the comparisons are
  signed.
\<close>

definition maxDiffPerSample :: int where "maxDiffPerSample = 2"

definition lossy_step :: "16 word \<Rightarrow> 16 word \<Rightarrow> int \<times> 16 word \<Rightarrow> int \<times> 16 word" where
  "lossy_step sampleA sampleB st =
     (case st of (largeDiffs, maxDiff) \<Rightarrow>
        let diff0 = sampleA - sampleB;
            diff = (if sint diff0 < 0 then - diff0 else diff0);
            largeDiffs' = (if sint diff > maxDiffPerSample then largeDiffs + 1 else largeDiffs);
            maxDiff' = (if sint diff > sint maxDiff then diff else maxDiff)
        in (largeDiffs', maxDiff'))"

fun lossy_loop :: "byte list \<Rightarrow> byte list \<Rightarrow> nat list \<Rightarrow> int \<times> 16 word \<Rightarrow> (int \<times> 16 word) option" where
  "lossy_loop pcmA pcmB [] st = Some st"
| "lossy_loop pcmA pcmB (idx # rest) st =
     (case Uint16 pcmA (int idx * 2) of
        None \<Rightarrow> None
      | Some sampleA \<Rightarrow>
          (case Uint16 pcmB (int idx * 2) of
             None \<Rightarrow> None
           | Some sampleB \<Rightarrow> lossy_loop pcmA pcmB rest (lossy_step sampleA sampleB st)))"

definition samplesPerFrame :: int where "samplesPerFrame = 1152"

definition CompareLossySamples :: "nat \<Rightarrow> testing_T \<Rightarrow> byte list \<Rightarrow> byte list \<Rightarrow> int \<Rightarrow> int
    \<Rightarrow> status \<times> testing_T" where
  "CompareLossySamples fuel t pcmA pcmB bitDepth channels =
     (if bitDepth \<noteq> BitDepth16 then (Returned, Errorf t (UnsupportedDepth bitDepth))
      else
        let maxLengthDiffBytes = go_mul (go_mul samplesPerFrame channels) 2;
            lengthDiff0 = len pcmA - len pcmB;
            lengthDiff = (if lengthDiff0 < 0 then - lengthDiff0 else lengthDiff0)
        in if lengthDiff > maxLengthDiffBytes then
             (Returned, Errorf t (LengthMismatch (len pcmA) (len pcmB) lengthDiff maxLengthDiffBytes))
           else
             let t1 = (if lengthDiff > 0
                       then Logf t (LengthDiff (len pcmA) (len pcmB) lengthDiff) else t);
                 numSamples = min (len pcmA) (len pcmB) sdiv 2
             in case lossy_loop pcmA pcmB [0..<nat numSamples] (0, 0) of
                  None \<Rightarrow> (Panicked, t1)
                | Some (largeDiffs, maxDiff) \<Rightarrow>
                    let maxLargeDiffs = numSamples sdiv lossyLargeDiffPct
                    in if largeDiffs > maxLargeDiffs then
                         ShowDiffs fuel
                           (Errorf t1 (LossyMismatch largeDiffs numSamples maxDiffPerSample maxDiff))
                           ''lossy comparison'' pcmA pcmB bitDepth channels defaultMaxDiffSamples
                       else (Returned, t1))"

section \<open>Mono to stereo\<close>

text \<open>
  \<open>copy(dst[off:], src)\<close> copies as many bytes as both slices hold. The parameter
  \<open>mono\<close> of the source is \<open>monoPCM\<close> here.
\<close>

definition copy_to :: "byte list \<Rightarrow> int \<Rightarrow> byte list \<Rightarrow> byte list option" where
  "copy_to dst off src =
     (if 0 \<le> off \<and> off \<le> len dst then
        (let n = min (length dst - nat off) (length src)
         in Some (take (nat off) dst @ take n src @ drop (nat off + n) dst))
      else None)"

fun mono_loop :: "byte list \<Rightarrow> int \<Rightarrow> nat list \<Rightarrow> byte list \<Rightarrow> byte list option" where
  "mono_loop monoPCM bps [] stereo = Some stereo"
| "mono_loop monoPCM bps (idx # rest) stereo =
     (case go_slice monoPCM (int idx * bps) ((int idx + 1) * bps) of
        None \<Rightarrow> None
      | Some sample \<Rightarrow>
          (case copy_to stereo (int idx * bps * 2) sample of
             None \<Rightarrow> None
           | Some stereo1 \<Rightarrow>
               (case copy_to stereo1 (int idx * bps * 2 + bps) sample of
                  None \<Rightarrow> None
                | Some stereo2 \<Rightarrow> mono_loop monoPCM bps rest stereo2)))"

definition MonoToStereo :: "byte list \<Rightarrow> int \<Rightarrow> byte list option" where
  "MonoToStereo monoPCM bitDepth =
     (let bps = PCMBytesPerSample bitDepth
      in case go_div (len monoPCM) bps of
           None \<Rightarrow> None
         | Some numSamples \<Rightarrow>
             (case make_bytes (numSamples * bps * 2) of
                None \<Rightarrow> None
              | Some stereo \<Rightarrow> mono_loop monoPCM bps [0..<nat numSamples] stereo))"

section \<open>Notions used to state the properties\<close>

definition enumerated :: "int \<Rightarrow> bool" where
  "enumerated bitDepth \<longleftrightarrow>
     bitDepth \<in> {BitDepth4, BitDepth8, BitDepth12, BitDepth16, BitDepth20, BitDepth24, BitDepth32}"

text \<open>
  The number of samples that the synthesizer computes from its parameters, and the
  number of bytes that it allocates for them: both as the 64-bit \<open>int\<close> holds them.
\<close>

definition numSamples :: "int \<Rightarrow> int \<Rightarrow> int \<Rightarrow> int" where
  "numSamples sampleRate durationSec channels = go_mul (go_mul sampleRate durationSec) channels"

definition numBytes :: "int \<Rightarrow> int \<Rightarrow> int \<Rightarrow> int \<Rightarrow> int" where
  "numBytes sampleRate bitDepth channels durationSec =
     go_mul (numSamples sampleRate durationSec channels) (PCMBytesPerSample bitDepth)"

text \<open>The bytes of one sample, as the synthesizer derives them from a generator state.\<close>

definition sample_bytes :: "int \<Rightarrow> 64 word \<Rightarrow> byte list" where
  "sample_bytes bitDepth seed =
     (if bitDepth = BitDepth4 then [ucast (seed mod 14 - 7)]
      else if bitDepth = BitDepth8 then [ucast (seed mod 240 - 120)]
      else if bitDepth = BitDepth12 then
        (let val = (ucast (seed mod 4000 - 2000) :: 16 word)
         in [ucast val, ucast (drop_bit 8 val)])
      else if bitDepth = BitDepth16 then
        (let val = (ucast (seed mod 60000 - 30000) :: 16 word)
         in [ucast val, ucast (drop_bit 8 val)])
      else if bitDepth = BitDepth20 then
        (let val = (ucast (seed mod 1000000 - 500000) :: 32 word)
         in [ucast val, ucast (signed_drop_bit 8 val), ucast (signed_drop_bit 16 val)])
      else if bitDepth = BitDepth24 then
        (let val = (ucast (seed mod 14000000 - 7000000) :: 32 word)
         in [ucast val, ucast (signed_drop_bit 8 val), ucast (signed_drop_bit 16 val)])
      else if bitDepth = BitDepth32 then
        (let val = (ucast (seed mod 1800000000 - 900000000) :: 32 word)
         in [ucast val, ucast (drop_bit 8 val), ucast (drop_bit 16 val), ucast (drop_bit 24 val)])
      else [])"

text \<open>The samples of \<open>n\<close> successive generator states, one after the other.\<close>

fun noise_bytes :: "int \<Rightarrow> nat \<Rightarrow> 64 word \<Rightarrow> byte list" where
  "noise_bytes bitDepth 0 seed = []"
| "noise_bytes bitDepth (Suc n) seed =
     sample_bytes bitDepth (xorshift seed) @ noise_bytes bitDepth n (xorshift seed)"

text \<open>Kinds of messages.\<close>

fun is_LengthMismatch :: "msg \<Rightarrow> bool" where
  "is_LengthMismatch (LengthMismatch a b d tol) = True"
| "is_LengthMismatch m = False"

fun is_LossyMismatch :: "msg \<Rightarrow> bool" where
  "is_LossyMismatch (LossyMismatch l n p m) = True"
| "is_LossyMismatch m = False"

fun is_FrameDiff :: "msg \<Rightarrow> bool" where
  "is_FrameDiff (FrameDiff label i e a) = True"
| "is_FrameDiff m = False"

text \<open>
  Sample \<open>idx\<close> of a 16-bit buffer: the little-endian word that \<open>Uint16\<close> reads at
  byte \<open>2 * idx\<close>, and its value as a signed integer.
\<close>

definition sample_word :: "byte list \<Rightarrow> nat \<Rightarrow> 16 word" where
  "sample_word pcm idx = ucast (pcm ! (idx * 2)) OR push_bit 8 (ucast (pcm ! (idx * 2 + 1)))"

definition sample16 :: "byte list \<Rightarrow> nat \<Rightarrow> int" where
  "sample16 pcm idx = sint (sample_word pcm idx)"

text \<open>
  The value of \<open>diff\<close> that the lossy comparator tests against the per-sample
  tolerance: the \<open>int16\<close> difference and its \<open>int16\<close> negation.
\<close>

definition wrapped_abs_diff :: "16 word \<Rightarrow> 16 word \<Rightarrow> 16 word" where
  "wrapped_abs_diff a b = (if sint (a - b) < 0 then - (a - b) else a - b)"

text \<open>Whether the lossy comparator counts sample \<open>idx\<close> as a large diff.\<close>

definition counted_large :: "byte list \<Rightarrow> byte list \<Rightarrow> nat \<Rightarrow> bool" where
  "counted_large pcmA pcmB idx \<longleftrightarrow>
     sint (wrapped_abs_diff (sample_word pcmA idx) (sample_word pcmB idx)) > maxDiffPerSample"

text \<open>Whether the two buffers differ at byte \<open>idx\<close>.\<close>

definition differs :: "byte list \<Rightarrow> byte list \<Rightarrow> nat \<Rightarrow> bool" where
  "differs expected actual idx \<longleftrightarrow> expected ! idx \<noteq> actual ! idx"

text \<open>
  Sample \<open>idx\<close> of a mono buffer with \<open>bps\<close> bytes per sample, and the stereo frames
  made of the samples at the given indices, each sample twice.
\<close>

definition mono_sample :: "byte list \<Rightarrow> nat \<Rightarrow> nat \<Rightarrow> byte list" where
  "mono_sample monoPCM bps idx = take bps (drop (idx * bps) monoPCM)"

definition stereo_frames :: "byte list \<Rightarrow> nat \<Rightarrow> nat list \<Rightarrow> byte list" where
  "stereo_frames monoPCM bps idxs =
     concat (map (\<lambda>idx. mono_sample monoPCM bps idx @ mono_sample monoPCM bps idx) idxs)"

section \<open>Lists and words\<close>

lemmas depth_defs = BitDepth4_def BitDepth8_def BitDepth12_def BitDepth16_def
  BitDepth20_def BitDepth24_def BitDepth32_def

lemma upd1: "i < length xs \<Longrightarrow> xs[i := a] = take i xs @ a # drop (Suc i) xs"
  by (simp add: upd_conv_take_nth_drop)

lemma upd2:
  "Suc i < length xs \<Longrightarrow> xs[i := a, Suc i := b] = take i xs @ a # b # drop (Suc (Suc i)) xs"
  by (rule nth_equalityI)
    (auto simp: nth_append nth_list_update nth_Cons' intro!: arg_cong [where f = "nth xs"])

lemma upd3:
  "Suc (Suc i) < length xs \<Longrightarrow>
   xs[i := a, Suc i := b, Suc (Suc i) := c] = take i xs @ a # b # c # drop (Suc (Suc (Suc i))) xs"
  by (rule nth_equalityI)
    (auto simp: nth_append nth_list_update nth_Cons' intro!: arg_cong [where f = "nth xs"])

lemma upd4:
  "Suc (Suc (Suc i)) < length xs \<Longrightarrow>
   xs[i := a, Suc i := b, Suc (Suc i) := c, Suc (Suc (Suc i)) := d] =
   take i xs @ a # b # c # d # drop (Suc (Suc (Suc (Suc i)))) xs"
  by (rule nth_equalityI)
    (auto simp: nth_append nth_list_update nth_Cons' intro!: arg_cong [where f = "nth xs"])

lemma nth_take_drop:
  "take m (drop k xs) = ys \<Longrightarrow> j < length ys \<Longrightarrow> xs ! (k + j) = ys ! j \<and> k + j < length xs"
  by auto

lemma ucast_sub_of_int:
  fixes x :: "64 word"
  assumes "LENGTH('a::len) \<le> 64"
  shows "(ucast (x - word_of_int c) :: 'a word) = word_of_int (uint x - c)"
proof -
  have "x - word_of_int c = word_of_int (uint x - c)" by simp
  then have "(ucast (x - word_of_int c) :: 'a word) = of_int (take_bit 64 (uint x - c))"
    by (simp only: unsigned_of_int) simp
  also have "\<dots> = word_of_int (uint x - c)"
    unfolding word_of_int_eq_iff using assms by (simp add: min_def)
  finally show ?thesis .
qed

lemma sint_small:
  "- (2 ^ (LENGTH('a::len) - 1)) \<le> k \<Longrightarrow> k < 2 ^ (LENGTH('a) - 1) \<Longrightarrow>
   sint (word_of_int k :: 'a word) = k"
  by (simp add: signed_of_int signed_take_bit_int_eq_self)

lemma le16_roundtrip:
  fixes v :: "16 word"
  shows "(ucast (ucast v :: 8 word) :: 16 word)
         OR push_bit 8 (ucast (ucast (drop_bit 8 v) :: 8 word)) = v"
  by (rule bit_word_eqI) (auto simp: bit_simps)

lemma wrap64_id: "- (2 ^ 63) \<le> x \<Longrightarrow> x < 2 ^ 63 \<Longrightarrow> wrap64 x = x"
  by (simp add: wrap64_def signed_of_int signed_take_bit_int_eq_self)

lemma wrap64_range: "- (2 ^ 63) \<le> wrap64 x" "wrap64 x < 2 ^ 63"
  using sint_ge [of "word_of_int x :: 64 word"] sint_lt [of "word_of_int x :: 64 word"]
  by (simp_all add: wrap64_def)

lemma wrap64_mult_left: "wrap64 (wrap64 a * b) = wrap64 (a * b)"
  by (simp add: wrap64_def)

lemma min64_le_nonneg: "(0::int) \<le> x \<Longrightarrow> - (2 ^ 63) \<le> x"
  by (rule order_trans [of _ 0]) simp_all

section \<open>The synthesizer writes the samples of the generator states\<close>

lemma bytes_per_sample_enumerated:
  "enumerated bitDepth \<Longrightarrow>
   PCMBytesPerSample bitDepth = int (length (sample_bytes bitDepth seed))"
  by (auto simp: enumerated_def PCMBytesPerSample_def depth_defs sample_bytes_def Let_def)

lemma write_sample_length:
  "write_sample bitDepth seed offset buf = Some buf' \<Longrightarrow> length buf' = length buf"
  by (auto simp: write_sample_def put_byte_def PutUint16_def PutUint32_def Let_def
      split: if_splits Option.bind_splits)

lemma write_sample_fails:
  assumes "enumerated bitDepth" and "len buf < offset + PCMBytesPerSample bitDepth"
  shows "write_sample bitDepth seed offset buf = None"
proof -
  from assms(1) consider "bitDepth = 4" | "bitDepth = 8" | "bitDepth = 12" | "bitDepth = 16"
    | "bitDepth = 20" | "bitDepth = 24" | "bitDepth = 32"
    by (auto simp: enumerated_def depth_defs)
  then show ?thesis
    using assms(2)
    by cases (auto simp: write_sample_def put_byte_def PutUint16_def PutUint32_def Let_def
      PCMBytesPerSample_def depth_defs len_def split: Option.bind_splits)
qed

lemma gen_loop_fails:
  assumes "\<And>s b. length b = L \<Longrightarrow> write_sample bitDepth s (go_mul (int i0) bps) b = None"
  shows "i0 \<in> set idxs \<Longrightarrow> length buf = L \<Longrightarrow> gen_loop bitDepth bps idxs seed buf = None"
proof (induction idxs arbitrary: seed buf)
  case Nil
  then show ?case by simp
next
  case (Cons i idxs)
  show ?case
  proof (cases "write_sample bitDepth (xorshift seed) (go_mul (int i) bps) buf")
    case None
    then show ?thesis by (simp add: Let_def)
  next
    case (Some buf')
    then have l: "length buf' = L" using write_sample_length Cons.prems(2) by simp
    have "i \<noteq> i0" using Some assms [OF Cons.prems(2)] by auto
    with Cons.prems(1) have "i0 \<in> set idxs" by simp
    from Cons.IH [OF this l] show ?thesis using Some by (simp add: Let_def)
  qed
qed

lemma length_sample_bytes:
  "enumerated bitDepth \<Longrightarrow>
   length (sample_bytes bitDepth seed) = length (sample_bytes bitDepth seed')"
  by (auto simp: enumerated_def depth_defs sample_bytes_def Let_def)

lemma write_sample_eq:
  assumes "enumerated bitDepth" and "0 \<le> offset"
    and "offset + int (length (sample_bytes bitDepth seed)) \<le> len buf"
  shows "write_sample bitDepth seed offset buf =
         Some (take (nat offset) buf @ sample_bytes bitDepth seed
               @ drop (nat offset + length (sample_bytes bitDepth seed)) buf)"
proof -
  obtain i where i: "offset = int i" using assms(2) nonneg_int_cases by blast
  from assms(1) consider "bitDepth = 4" | "bitDepth = 8" | "bitDepth = 12" | "bitDepth = 16"
    | "bitDepth = 20" | "bitDepth = 24" | "bitDepth = 32"
    by (auto simp: enumerated_def depth_defs)
  then show ?thesis
  proof cases
    case 1
    with assms(3) show ?thesis
      by (simp add: write_sample_def sample_bytes_def depth_defs put_byte_def len_def i upd1)
  next
    case 2
    with assms(3) show ?thesis
      by (simp add: write_sample_def sample_bytes_def depth_defs put_byte_def len_def i upd1)
  next
    case 3
    with assms(3) show ?thesis
      by (simp add: write_sample_def sample_bytes_def depth_defs PutUint16_def len_def i upd2 Let_def)
  next
    case 4
    with assms(3) show ?thesis
      by (simp add: write_sample_def sample_bytes_def depth_defs PutUint16_def len_def i upd2 Let_def)
  next
    case 5
    with assms(3) have "Suc (Suc i) < length buf"
      by (simp add: sample_bytes_def depth_defs Let_def len_def i)
    with 5 show ?thesis
      by (simp add: write_sample_def sample_bytes_def depth_defs put_byte_def len_def i
          Let_def bitsPerByte_def nat_add_distrib upd3)
  next
    case 6
    with assms(3) have "Suc (Suc i) < length buf"
      by (simp add: sample_bytes_def depth_defs Let_def len_def i)
    with 6 show ?thesis
      by (simp add: write_sample_def sample_bytes_def depth_defs put_byte_def len_def i
          Let_def bitsPerByte_def nat_add_distrib upd3)
  next
    case 7
    with assms(3) have "Suc (Suc (Suc i)) < length buf"
      by (simp add: sample_bytes_def depth_defs Let_def len_def i)
    with 7 show ?thesis
      by (simp add: write_sample_def sample_bytes_def depth_defs PutUint32_def len_def i
          Let_def numeral_3_eq_3 upd4)
  qed
qed

lemma length_noise_bytes:
  "enumerated bitDepth \<Longrightarrow>
   length (noise_bytes bitDepth n seed) = n * length (sample_bytes bitDepth s0)"
proof (induction n arbitrary: seed)
  case 0
  show ?case by simp
next
  case (Suc n)
  then show ?case
    using length_sample_bytes [of bitDepth "xorshift seed" s0] by simp
qed

lemma go_mul_nat:
  assumes "int (k * b) < 2 ^ 63"
  shows "go_mul (int k) (int b) = int k * int b"
proof -
  have "- (2 ^ 63) \<le> int (k * b)" by (rule order_trans [of _ 0]) simp_all
  then have "wrap64 (int (k * b)) = int (k * b)" using assms by (rule wrap64_id)
  then show ?thesis by (simp add: go_mul_def)
qed

lemma gen_loop_eq:
  assumes "enumerated bitDepth"
    and "bps = length (sample_bytes bitDepth s0)"
    and "int (n * bps) < 2 ^ 63"
  shows "k \<le> n \<Longrightarrow> length buf = n * bps \<Longrightarrow>
         gen_loop bitDepth (int bps) [k..<n] seed buf =
         Some (take (k * bps) buf @ noise_bytes bitDepth (n - k) seed)"
proof (induction "n - k" arbitrary: k seed buf)
  case 0
  then show ?case by simp
next
  case (Suc m)
  then have kn: "k < n" and m: "m = n - Suc k" by simp_all
  let ?s = "xorshift seed"
  let ?buf = "take (k * bps) buf @ sample_bytes bitDepth ?s @ drop (k * bps + bps) buf"
  have lb: "length (sample_bytes bitDepth ?s) = bps"
    using assms length_sample_bytes by simp
  have "Suc k * bps \<le> n * bps" using kn by (simp only: mult_le_mono1 Suc_leI)
  then have fit: "k * bps + bps \<le> length buf" using Suc.prems(2) by simp
  have "k * bps \<le> n * bps" using kn by simp
  then have "int (k * bps) < 2 ^ 63" using assms(3) by linarith
  then have off: "go_mul (int k) (int bps) = int k * int bps" by (rule go_mul_nat)
  have w: "write_sample bitDepth ?s (go_mul (int k) (int bps)) buf = Some ?buf"
    unfolding off
    using write_sample_eq [OF assms(1), of "int k * int bps" ?s buf] lb fit
    by (simp add: len_def nat_mult_distrib flip: of_nat_mult of_nat_add)
  have len': "length ?buf = n * bps" using fit lb Suc.prems(2) by simp
  have "gen_loop bitDepth (int bps) [Suc k..<n] ?s ?buf =
        Some (take (Suc k * bps) ?buf @ noise_bytes bitDepth (n - Suc k) ?s)"
    using Suc.hyps(1) [OF m _ len'] kn by simp
  moreover have "take (Suc k * bps) ?buf = take (k * bps) buf @ sample_bytes bitDepth ?s"
    using fit lb by simp
  moreover have "n - k = Suc (n - Suc k)" using kn by simp
  ultimately show ?case
    using kn w by (simp add: upt_conv_Cons Let_def)
qed

lemma make_bytes_nat: "make_bytes (int k) = Some (replicate k 0)"
  by (simp add: make_bytes_def)

text \<open>
  The three ways a call of the synthesizer goes, for an enumerated bit depth: with a
  sample count that is not negative and a byte count that fits, the samples of the
  generator states are returned; with a sample count that is not positive, the loop
  is not entered and the zeroed buffer is returned as allocated; with a positive sample
  count whose byte count does not fit, a write beyond the allocated buffer panics.
\<close>

lemma GenerateWhiteNoise_exact:
  assumes "enumerated bitDepth" and "0 \<le> numSamples sampleRate durationSec channels"
    and "numSamples sampleRate durationSec channels * PCMBytesPerSample bitDepth < 2 ^ 63"
  shows "GenerateWhiteNoise sampleRate bitDepth channels durationSec =
         Some (noise_bytes bitDepth (nat (numSamples sampleRate durationSec channels)) xorshiftSeed)"
proof -
  define n where "n = nat (numSamples sampleRate durationSec channels)"
  let ?bps = "length (sample_bytes bitDepth 0)"
  have b: "PCMBytesPerSample bitDepth = int ?bps"
    using assms(1) by (rule bytes_per_sample_enumerated)
  have ns: "go_mul (go_mul sampleRate durationSec) channels = int n"
    using assms(2) by (simp add: n_def numSamples_def)
  have fits: "int (n * ?bps) < 2 ^ 63"
    using assms(3) unfolding b numSamples_def ns by simp
  then have nb: "go_mul (int n) (int ?bps) = int (n * ?bps)" by (simp add: go_mul_nat)
  have "gen_loop bitDepth (int ?bps) [0..<n] xorshiftSeed (replicate (n * ?bps) 0) =
        Some (take (0 * ?bps) (replicate (n * ?bps) 0)
              @ noise_bytes bitDepth (n - 0) xorshiftSeed)"
    by (rule gen_loop_eq [OF assms(1) refl fits]) simp_all
  then show ?thesis
    unfolding GenerateWhiteNoise_def Let_def b ns nb make_bytes_nat
    by (simp add: numSamples_def ns)
qed

lemma GenerateWhiteNoise_not_entered:
  assumes "numSamples sampleRate durationSec channels \<le> 0"
  shows "GenerateWhiteNoise sampleRate bitDepth channels durationSec =
         make_bytes (numBytes sampleRate bitDepth channels durationSec)"
  using assms unfolding GenerateWhiteNoise_def Let_def numBytes_def numSamples_def
  by (simp split: option.split)

lemma GenerateWhiteNoise_overflow:
  assumes "enumerated bitDepth" and "0 < numSamples sampleRate durationSec channels"
    and "2 ^ 63 \<le> numSamples sampleRate durationSec channels * PCMBytesPerSample bitDepth"
  shows "GenerateWhiteNoise sampleRate bitDepth channels durationSec = None"
proof -
  define n where "n = numSamples sampleRate durationSec channels"
  define bps where "bps = PCMBytesPerSample bitDepth"
  define m where "m = go_mul n bps"
  have bp: "0 < bps"
    using assms(1) by (auto simp: bps_def enumerated_def PCMBytesPerSample_def depth_defs)
  have m63: "m < 2 ^ 63" unfolding m_def go_mul_def by (rule wrap64_range)
  show ?thesis
  proof (cases "m < 0")
    case True
    then show ?thesis
      unfolding GenerateWhiteNoise_def Let_def
      by (simp add: make_bytes_def m_def n_def bps_def numSamples_def)
  next
    case False
    define i0 where "i0 = nat (m div bps)"
    have q: "0 \<le> m div bps" using False bp by (simp add: pos_imp_zdiv_nonneg_iff)
    have lo: "m div bps * bps \<le> m"
      using bp div_mult_mod_eq [of m bps] pos_mod_sign [of bps m] by linarith
    have hi: "m < m div bps * bps + bps"
      using bp div_mult_mod_eq [of m bps] pos_mod_bound [of bps m] by linarith
    have "m < n * bps" using m63 assms(3) by (simp add: n_def bps_def)
    then have "m div bps * bps < n * bps" using lo by linarith
    then have "m div bps < n" using bp by simp
    then have i0n: "i0 < nat n" using q by (simp add: i0_def)
    have "0 \<le> m div bps * bps" using q bp by simp
    then have "- (2 ^ 63) \<le> int i0 * bps" "int i0 * bps < 2 ^ 63"
      using q lo m63 by (simp_all add: i0_def)
    then have off: "go_mul (int i0) bps = int i0 * bps"
      unfolding go_mul_def by (rule wrap64_id)
    have fail: "write_sample bitDepth s (go_mul (int i0) bps) b = None"
      if "length b = nat m" for s b
      unfolding off
      by (rule write_sample_fails [OF assms(1)])
        (use that hi q False in \<open>simp add: i0_def len_def bps_def\<close>)
    have "gen_loop bitDepth bps [0..<nat n] xorshiftSeed (replicate (nat m) 0) = None"
      by (rule gen_loop_fails [where ?i0.0 = i0 and L = "nat m"]) (use fail i0n in simp_all)
    then show ?thesis
      unfolding GenerateWhiteNoise_def Let_def
      using False by (simp add: make_bytes_def m_def n_def bps_def numSamples_def)
  qed
qed

lemma numSamples_exact:
  assumes "- (2 ^ 63) \<le> sampleRate * durationSec * channels"
    and "sampleRate * durationSec * channels < 2 ^ 63"
  shows "numSamples sampleRate durationSec channels = sampleRate * durationSec * channels"
  unfolding numSamples_def go_mul_def wrap64_mult_left using assms by (rule wrap64_id)

lemma numBytes_wrap64:
  "numBytes sampleRate bitDepth channels durationSec =
   wrap64 (sampleRate * durationSec * channels * PCMBytesPerSample bitDepth)"
  by (simp add: numBytes_def numSamples_def go_mul_def wrap64_mult_left)

lemma enumerated_bps_range:
  "enumerated bitDepth \<Longrightarrow> 1 \<le> PCMBytesPerSample bitDepth \<and> PCMBytesPerSample bitDepth \<le> 4"
  by (auto simp: enumerated_def PCMBytesPerSample_def depth_defs)

lemma GenerateWhiteNoise_result:
  assumes "enumerated bitDepth"
    and "GenerateWhiteNoise sampleRate bitDepth channels durationSec = Some buf"
  shows "len buf = numBytes sampleRate bitDepth channels durationSec
       \<and> (buf = replicate (length buf) 0
          \<or> buf = noise_bytes bitDepth (nat (numSamples sampleRate durationSec channels)) xorshiftSeed)"
proof -
  let ?n = "numSamples sampleRate durationSec channels"
  let ?m = "numBytes sampleRate bitDepth channels durationSec"
  let ?bps = "PCMBytesPerSample bitDepth"
  consider "?n \<le> 0" | "0 < ?n" "2 ^ 63 \<le> ?n * ?bps" | "0 < ?n" "?n * ?bps < 2 ^ 63"
    by linarith
  then show ?thesis
  proof cases
    case 1
    then have "make_bytes ?m = Some buf"
      using assms(2) by (simp add: GenerateWhiteNoise_not_entered)
    then show ?thesis
      by (auto simp: make_bytes_def len_def split: if_splits)
  next
    case 2
    with assms show ?thesis by (simp add: GenerateWhiteNoise_overflow)
  next
    case 3
    then have n0: "0 \<le> ?n" by simp
    have b: "buf = noise_bytes bitDepth (nat ?n) xorshiftSeed"
      using GenerateWhiteNoise_exact [OF assms(1) n0 3(2)] assms(2) by simp
    have "0 \<le> ?n * ?bps"
      using n0 enumerated_bps_range [OF assms(1)] by simp
    then have "- (2 ^ 63) \<le> ?n * ?bps" by (rule min64_le_nonneg)
    then have "?m = ?n * ?bps"
      unfolding numBytes_def go_mul_def using 3(2) by (rule wrap64_id)
    moreover have "len buf = ?n * ?bps"
      unfolding b len_def
      using n0 bytes_per_sample_enumerated [OF assms(1), of 0]
      by (simp add: length_noise_bytes [OF assms(1), where ?s0.0 = 0])
    ultimately show ?thesis using b by simp
  qed
qed

lemma GenerateWhiteNoise_returns:
  assumes "enumerated bitDepth" and "0 \<le> sampleRate * durationSec * channels"
    and "sampleRate * durationSec * channels * PCMBytesPerSample bitDepth < 2 ^ 63"
  shows "\<exists>buf. GenerateWhiteNoise sampleRate bitDepth channels durationSec = Some buf
           \<and> len buf = sampleRate * durationSec * channels * PCMBytesPerSample bitDepth"
proof -
  let ?N = "sampleRate * durationSec * channels"
  let ?bps = "PCMBytesPerSample bitDepth"
  have bp: "1 \<le> ?bps" using enumerated_bps_range [OF assms(1)] by simp
  have "?N * 1 \<le> ?N * ?bps" using assms(2) bp by (intro mult_left_mono) simp_all
  then have "?N < 2 ^ 63" using assms(3) by simp
  moreover have "- (2 ^ 63) \<le> ?N" using assms(2) by (rule min64_le_nonneg)
  ultimately have n: "numSamples sampleRate durationSec channels = ?N"
    by (intro numSamples_exact)
  have "GenerateWhiteNoise sampleRate bitDepth channels durationSec =
        Some (noise_bytes bitDepth (nat ?N) xorshiftSeed)"
    using GenerateWhiteNoise_exact [OF assms(1), of sampleRate durationSec channels] assms(2,3)
    unfolding n by simp
  moreover have "len (noise_bytes bitDepth (nat ?N) xorshiftSeed) = ?N * ?bps"
    unfolding len_def
    using assms(2) bytes_per_sample_enumerated [OF assms(1), of 0]
    by (simp add: length_noise_bytes [OF assms(1), where ?s0.0 = 0])
  ultimately show ?thesis by simp
qed

lemma noise_chunk:
  assumes "enumerated bitDepth" and bps: "bps = length (sample_bytes bitDepth s0)"
  shows "i < n \<Longrightarrow>
         take bps (drop (i * bps) (noise_bytes bitDepth n seed)) =
         sample_bytes bitDepth ((xorshift ^^ Suc i) seed)"
proof (induction n arbitrary: i seed)
  case 0
  then show ?case by simp
next
  case (Suc n)
  have lb: "length (sample_bytes bitDepth (xorshift seed)) = bps"
    using assms length_sample_bytes by simp
  show ?case
  proof (cases i)
    case 0
    then show ?thesis using lb by simp
  next
    case (Suc j)
    then have "j < n" using Suc.prems by simp
    from Suc.IH [OF this, of "xorshift seed"] show ?thesis
      using lb Suc by (simp add: funpow_swap1)
  qed
qed

section \<open>Length of the synthesized buffer\<close>

text \<open>
  C7. For every enumerated bit depth, \<open>PCMBytesPerSample\<close> is 1 for 4 and 8 bits, 2 for
  12 and 16, 3 for 20 and 24, 4 for 32. Whenever \<open>GenerateWhiteNoise\<close> returns a
  buffer, its length is \<open>sampleRate * durationSec * channels * bytesPerSample\<close> as the
  64-bit \<open>int\<close> holds it. Whenever the exact sample count
  \<open>sampleRate * durationSec * channels\<close> is not negative and the exact byte count
  \<open>sampleRate * durationSec * channels * bytesPerSample\<close> is below \<open>2^63\<close>, a buffer is
  returned and its length is exactly that byte count.
\<close>

theorem GenerateWhiteNoise_length:
  assumes "enumerated bitDepth"
  shows "PCMBytesPerSample bitDepth =
           (if bitDepth = 4 \<or> bitDepth = 8 then 1
            else if bitDepth = 12 \<or> bitDepth = 16 then 2
            else if bitDepth = 20 \<or> bitDepth = 24 then 3 else 4)
       \<and> (\<forall>buf. GenerateWhiteNoise sampleRate bitDepth channels durationSec = Some buf \<longrightarrow>
             len buf = wrap64 (sampleRate * durationSec * channels * PCMBytesPerSample bitDepth))
       \<and> (0 \<le> sampleRate * durationSec * channels
          \<and> sampleRate * durationSec * channels * PCMBytesPerSample bitDepth < 2 ^ 63 \<longrightarrow>
            (\<exists>buf. GenerateWhiteNoise sampleRate bitDepth channels durationSec = Some buf
               \<and> len buf = sampleRate * durationSec * channels * PCMBytesPerSample bitDepth))"
proof -
  have "PCMBytesPerSample bitDepth =
           (if bitDepth = 4 \<or> bitDepth = 8 then 1
            else if bitDepth = 12 \<or> bitDepth = 16 then 2
            else if bitDepth = 20 \<or> bitDepth = 24 then 3 else 4)"
    using assms by (auto simp: enumerated_def PCMBytesPerSample_def depth_defs)
  moreover have "len buf = wrap64 (sampleRate * durationSec * channels * PCMBytesPerSample bitDepth)"
    if "GenerateWhiteNoise sampleRate bitDepth channels durationSec = Some buf" for buf
    using GenerateWhiteNoise_result [OF assms that] by (simp add: numBytes_wrap64)
  ultimately show ?thesis
    using GenerateWhiteNoise_returns [OF assms] by blast
qed

theorem GenerateWhiteNoise_length_witness:
  "enumerated 16 \<and> (0::int) \<le> 2 * 1 * 1 \<and> (2 * 1 * 1 * PCMBytesPerSample 16) < 2 ^ 63
   \<and> (\<exists>buf. GenerateWhiteNoise 2 16 1 1 = Some buf \<and> PCMBytesPerSample 16 = 2 \<and> len buf = 4)"
proof -
  have e: "enumerated 16" by (simp add: enumerated_def depth_defs)
  have b: "PCMBytesPerSample 16 = 2" by (simp add: PCMBytesPerSample_def depth_defs)
  from GenerateWhiteNoise_length [OF e, of 2 1 1] show ?thesis
    using e by (simp add: b)
qed

text \<open>
  With a sample rate of \<open>2^62\<close> and a duration of 4 the sample count wraps around to 0:
  the buffer returned at 16 bits and one channel is empty, while the exact product is
  \<open>2^65\<close>.
\<close>

theorem GenerateWhiteNoise_length_wraps:
  "GenerateWhiteNoise (2 ^ 62) BitDepth16 1 4 = Some []
   \<and> len ([] :: byte list) \<noteq> 2 ^ 62 * 4 * 1 * PCMBytesPerSample BitDepth16"
proof -
  have n: "go_mul (go_mul (2 ^ 62) 4) 1 = 0"
    by (simp add: go_mul_def wrap64_def)
  have b: "PCMBytesPerSample BitDepth16 = 2"
    by (simp add: PCMBytesPerSample_def depth_defs)
  have m: "make_bytes (go_mul 0 2) = Some []"
    by (simp add: go_mul_def wrap64_def make_bytes_def)
  have "GenerateWhiteNoise (2 ^ 62) BitDepth16 1 4 = Some []"
    unfolding GenerateWhiteNoise_def Let_def n b m by simp
  then show ?thesis by (simp add: b len_def)
qed

section \<open>Range of the synthesized samples\<close>

lemma sample4_range:
  fixes s :: "64 word"
  shows "- 7 \<le> sint (ucast (s mod 14 - 7) :: 8 word) \<and> sint (ucast (s mod 14 - 7) :: 8 word) \<le> 6"
proof -
  have b: "0 \<le> uint (s mod 14)" "uint (s mod 14) < 14" by (simp_all add: uint_mod_distrib)
  have "(ucast (s mod 14 - 7) :: 8 word) = word_of_int (uint (s mod 14) - 7)"
    using ucast_sub_of_int [where 'a = 8, of "s mod 14" 7] by simp
  moreover have "sint (word_of_int (uint (s mod 14) - 7) :: 8 word) = uint (s mod 14) - 7"
    using b by (intro sint_small) simp_all
  ultimately show ?thesis using b by simp
qed

lemma sample8_range:
  fixes s :: "64 word"
  shows "- 120 \<le> sint (ucast (s mod 240 - 120) :: 8 word)
       \<and> sint (ucast (s mod 240 - 120) :: 8 word) \<le> 119"
proof -
  have b: "0 \<le> uint (s mod 240)" "uint (s mod 240) < 240" by (simp_all add: uint_mod_distrib)
  have "(ucast (s mod 240 - 120) :: 8 word) = word_of_int (uint (s mod 240) - 120)"
    using ucast_sub_of_int [where 'a = 8, of "s mod 240" 120] by simp
  moreover have "sint (word_of_int (uint (s mod 240) - 120) :: 8 word) = uint (s mod 240) - 120"
    using b by (intro sint_small) simp_all
  ultimately show ?thesis using b by simp
qed

lemma sample16_range:
  fixes s :: "64 word"
  shows "- 30000 \<le> sint (ucast (s mod 60000 - 30000) :: 16 word)
       \<and> sint (ucast (s mod 60000 - 30000) :: 16 word) \<le> 29999"
proof -
  have b: "0 \<le> uint (s mod 60000)" "uint (s mod 60000) < 60000"
    by (simp_all add: uint_mod_distrib)
  have "(ucast (s mod 60000 - 30000) :: 16 word) = word_of_int (uint (s mod 60000) - 30000)"
    using ucast_sub_of_int [where 'a = 16, of "s mod 60000" 30000] by simp
  moreover have "sint (word_of_int (uint (s mod 60000) - 30000) :: 16 word)
                 = uint (s mod 60000) - 30000"
    using b by (intro sint_small) simp_all
  ultimately show ?thesis using b by simp
qed

lemma enumerated_simps:
  "enumerated BitDepth4" "enumerated BitDepth8" "enumerated BitDepth16"
  by (simp_all add: enumerated_def)

lemma noise_one_byte:
  assumes "enumerated bitDepth" and "\<And>s. sample_bytes bitDepth s = [f s]" and "i < n"
  shows "get_byte (noise_bytes bitDepth n seed) (int i) = Some (f ((xorshift ^^ Suc i) seed))"
proof -
  have "take 1 (drop (i * 1) (noise_bytes bitDepth n seed)) = [f ((xorshift ^^ Suc i) seed)]"
    using noise_chunk [OF assms(1) _ assms(3), of 1 0 seed] assms(2) by simp
  from nth_take_drop [OF this, of 0] show ?thesis
    by (simp add: get_byte_def len_def)
qed

lemma noise16_sample:
  assumes "i < n"
  shows "Uint16 (noise_bytes BitDepth16 n seed) (int i * 2) =
         Some (ucast ((xorshift ^^ Suc i) seed mod 60000 - 30000))"
proof -
  let ?v = "ucast ((xorshift ^^ Suc i) seed mod 60000 - 30000) :: 16 word"
  let ?buf = "noise_bytes BitDepth16 n seed"
  have sb: "\<And>s. sample_bytes BitDepth16 s =
              (let val = (ucast (s mod 60000 - 30000) :: 16 word) in [ucast val, ucast (drop_bit 8 val)])"
    by (simp add: sample_bytes_def depth_defs)
  have c: "take 2 (drop (i * 2) ?buf) = [ucast ?v, ucast (drop_bit 8 ?v)]"
    using noise_chunk [OF enumerated_simps(3) _ assms, of 2 0 seed] by (simp add: sb Let_def)
  from nth_take_drop [OF c, of 0] nth_take_drop [OF c, of 1]
  have "?buf ! (i * 2) = ucast ?v" "?buf ! (i * 2 + 1) = ucast (drop_bit 8 ?v)"
    "i * 2 + 1 < length ?buf"
    by simp_all
  then show ?thesis
    using le16_roundtrip [of ?v]
    by (simp add: Uint16_def len_def nat_mult_distrib)
qed

lemma zeros_byte:
  "0 \<le> idx \<Longrightarrow> idx < len (replicate k (0 :: byte)) \<Longrightarrow>
   get_byte (replicate k 0) idx = Some 0"
  by (simp add: get_byte_def len_def)

lemma zeros_sample16:
  "0 \<le> idx \<Longrightarrow> idx * 2 + 1 < len (replicate k (0 :: byte)) \<Longrightarrow>
   Uint16 (replicate k 0) (idx * 2) = Some 0"
  by (simp add: Uint16_def len_def)

text \<open>
  C6. For every sample rate, channel count and duration: every sample of a 16-bit
  buffer that \<open>GenerateWhiteNoise\<close> returns, read as a little-endian 16-bit word and
  taken as signed, lies between \<open>-30000\<close> and \<open>29999\<close>; every byte of an 8-bit
  buffer that it returns, taken as signed, lies between \<open>-120\<close> and \<open>119\<close>. And
  the buffers are returned, with one sample for each of the
  \<open>sampleRate * durationSec * channels\<close> sample indices, whenever that count is not
  negative and twice the count is below \<open>2^63\<close>.
\<close>

theorem synthesized_sample_range:
  "(\<forall>buf. GenerateWhiteNoise sampleRate BitDepth16 channels durationSec = Some buf \<longrightarrow>
        (\<forall>idx. 0 \<le> idx \<and> idx * 2 + 1 < len buf \<longrightarrow>
           (\<exists>w. Uint16 buf (idx * 2) = Some w \<and> - 30000 \<le> sint w \<and> sint w \<le> 29999)))
   \<and> (\<forall>buf. GenerateWhiteNoise sampleRate BitDepth8 channels durationSec = Some buf \<longrightarrow>
        (\<forall>idx. 0 \<le> idx \<and> idx < len buf \<longrightarrow>
           (\<exists>b. get_byte buf idx = Some b \<and> - 120 \<le> sint b \<and> sint b \<le> 119)))
   \<and> (0 \<le> sampleRate * durationSec * channels \<and> sampleRate * durationSec * channels * 2 < 2 ^ 63 \<longrightarrow>
        (\<exists>buf16 buf8.
            GenerateWhiteNoise sampleRate BitDepth16 channels durationSec = Some buf16
          \<and> len buf16 = sampleRate * durationSec * channels * 2
          \<and> GenerateWhiteNoise sampleRate BitDepth8 channels durationSec = Some buf8
          \<and> len buf8 = sampleRate * durationSec * channels))"
proof -
  define n where "n = nat (numSamples sampleRate durationSec channels)"
  have b16: "PCMBytesPerSample BitDepth16 = 2" and b8: "PCMBytesPerSample BitDepth8 = 1"
    by (simp_all add: PCMBytesPerSample_def depth_defs)
  have ls16: "length (sample_bytes BitDepth16 0) = 2" and ls8: "length (sample_bytes BitDepth8 0) = 1"
    by (simp_all add: sample_bytes_def depth_defs Let_def)
  have r16: "\<exists>w. Uint16 buf (idx * 2) = Some w \<and> - 30000 \<le> sint w \<and> sint w \<le> 29999"
    if g: "GenerateWhiteNoise sampleRate BitDepth16 channels durationSec = Some buf"
      and i: "0 \<le> idx" "idx * 2 + 1 < len buf" for buf idx
  proof -
    from GenerateWhiteNoise_result [OF enumerated_simps(3) g, folded n_def]
    consider "buf = replicate (length buf) 0" | "buf = noise_bytes BitDepth16 n xorshiftSeed"
      by blast
    then show ?thesis
    proof cases
      case 1
      then have "Uint16 buf (idx * 2) = Some 0"
        using zeros_sample16 [OF i(1), of "length buf"] i(2) by simp
      then show ?thesis by simp
    next
      case 2
      have "len buf = int n * 2"
        unfolding 2 len_def
        using length_noise_bytes [OF enumerated_simps(3), where ?s0.0 = 0] ls16 by simp
      with i have "idx = int (nat idx)" "nat idx < n" by simp_all
      then obtain j where j: "idx = int j" "j < n" by blast
      show ?thesis
        unfolding 2 j(1) noise16_sample [OF j(2)] using sample16_range by blast
    qed
  qed
  have r8: "\<exists>b. get_byte buf idx = Some b \<and> - 120 \<le> sint b \<and> sint b \<le> 119"
    if g: "GenerateWhiteNoise sampleRate BitDepth8 channels durationSec = Some buf"
      and i: "0 \<le> idx" "idx < len buf" for buf idx
  proof -
    from GenerateWhiteNoise_result [OF enumerated_simps(2) g, folded n_def]
    consider "buf = replicate (length buf) 0" | "buf = noise_bytes BitDepth8 n xorshiftSeed"
      by blast
    then show ?thesis
    proof cases
      case 1
      then have "get_byte buf idx = Some 0"
        using zeros_byte [OF i(1), of "length buf"] i(2) by simp
      then show ?thesis by simp
    next
      case 2
      have "len buf = int n"
        unfolding 2 len_def
        using length_noise_bytes [OF enumerated_simps(2), where ?s0.0 = 0] ls8 by simp
      with i have "idx = int (nat idx)" "nat idx < n" by simp_all
      then obtain j where j: "idx = int j" "j < n" by blast
      have "get_byte (noise_bytes BitDepth8 n xorshiftSeed) (int j) =
            Some (ucast ((xorshift ^^ Suc j) xorshiftSeed mod 240 - 120))"
        by (rule noise_one_byte [OF enumerated_simps(2) _ j(2)])
          (simp add: sample_bytes_def depth_defs)
      then show ?thesis
        unfolding 2 j(1) using sample8_range by blast
    qed
  qed
  have ret: "\<exists>buf16 buf8.
            GenerateWhiteNoise sampleRate BitDepth16 channels durationSec = Some buf16
          \<and> len buf16 = sampleRate * durationSec * channels * 2
          \<and> GenerateWhiteNoise sampleRate BitDepth8 channels durationSec = Some buf8
          \<and> len buf8 = sampleRate * durationSec * channels"
    if n: "0 \<le> sampleRate * durationSec * channels"
      and f: "sampleRate * durationSec * channels * 2 < 2 ^ 63"
  proof -
    define N where "N = sampleRate * durationSec * channels"
    have "N * 1 < 2 ^ 63" using n f unfolding N_def [symmetric] by simp
    then have f8: "sampleRate * durationSec * channels * 1 < 2 ^ 63" unfolding N_def .
    from GenerateWhiteNoise_returns [OF enumerated_simps(3) n, of] f
      GenerateWhiteNoise_returns [OF enumerated_simps(2) n] f8
    show ?thesis unfolding b16 b8 by simp
  qed
  show ?thesis using r16 r8 ret by blast
qed

theorem synthesized_sample_range_witness:
  "(0::int) \<le> 1 * 1 * 2 \<and> (1 * 1 * 2 * 2 :: int) < 2 ^ 63
   \<and> (\<exists>buf. GenerateWhiteNoise 1 BitDepth16 2 1 = Some buf \<and> len buf = 4
         \<and> (\<exists>w. Uint16 buf (1 * 2) = Some w \<and> - 30000 \<le> sint w \<and> sint w \<le> 29999))
   \<and> (\<exists>buf. GenerateWhiteNoise 1 BitDepth8 2 1 = Some buf \<and> len buf = 2
         \<and> (\<exists>b. get_byte buf 1 = Some b \<and> - 120 \<le> sint b \<and> sint b \<le> 119))"
proof -
  note T = synthesized_sample_range [of 1 2 1]
  have n: "(0::int) \<le> 1 * 1 * 2 \<and> (1 * 1 * 2 * 2 :: int) < 2 ^ 63" by simp
  with T obtain b16 b8 where
    g16: "GenerateWhiteNoise 1 BitDepth16 2 1 = Some b16" and l16: "len b16 = 1 * 1 * 2 * 2" and
    g8: "GenerateWhiteNoise 1 BitDepth8 2 1 = Some b8" and l8: "len b8 = 1 * 1 * 2"
    by blast
  from T g16 have
    r16: "\<forall>idx. 0 \<le> idx \<and> idx * 2 + 1 < len b16 \<longrightarrow>
            (\<exists>w. Uint16 b16 (idx * 2) = Some w \<and> - 30000 \<le> sint w \<and> sint w \<le> 29999)"
    by blast
  from T g8 have
    r8: "\<forall>idx. 0 \<le> idx \<and> idx < len b8 \<longrightarrow>
            (\<exists>b. get_byte b8 idx = Some b \<and> - 120 \<le> sint b \<and> sint b \<le> 119)"
    by blast
  from r16 [rule_format, of 1] r8 [rule_format, of 1] show ?thesis
    using g16 g8 l16 l8 by simp
qed

text \<open>
  C10. For every sample rate, channel count and duration: byte \<open>i\<close> of a 4-bit
  buffer that \<open>GenerateWhiteNoise\<close> returns is the low byte of \<open>state mod 14 - 7\<close>
  computed on 64-bit words, where \<open>state\<close> is the generator state after \<open>i + 1\<close>
  steps, and that byte, taken as signed, lies between \<open>-7\<close> and \<open>6\<close>. And the
  buffer is returned, one byte for each of the \<open>sampleRate * durationSec * channels\<close>
  samples, whenever that count is not negative and below \<open>2^63\<close>.
\<close>

theorem synthesized_4bit_range:
  "(\<forall>buf. GenerateWhiteNoise sampleRate BitDepth4 channels durationSec = Some buf \<longrightarrow>
        (\<forall>i. int i < len buf \<longrightarrow>
           (\<exists>b. get_byte buf (int i) = Some b
              \<and> b = ucast ((xorshift ^^ Suc i) xorshiftSeed mod 14 - 7)
              \<and> - 7 \<le> sint b \<and> sint b \<le> 6)))
   \<and> (0 \<le> sampleRate * durationSec * channels \<and> sampleRate * durationSec * channels < 2 ^ 63 \<longrightarrow>
        (\<exists>buf. GenerateWhiteNoise sampleRate BitDepth4 channels durationSec = Some buf
           \<and> len buf = sampleRate * durationSec * channels))"
proof -
  let ?n = "numSamples sampleRate durationSec channels"
  have b4: "PCMBytesPerSample BitDepth4 = 1"
    by (simp add: PCMBytesPerSample_def depth_defs)
  have ls4: "length (sample_bytes BitDepth4 0) = 1"
    by (simp add: sample_bytes_def depth_defs)
  have r: "\<exists>b. get_byte buf (int i) = Some b
              \<and> b = ucast ((xorshift ^^ Suc i) xorshiftSeed mod 14 - 7)
              \<and> - 7 \<le> sint b \<and> sint b \<le> 6"
    if g: "GenerateWhiteNoise sampleRate BitDepth4 channels durationSec = Some buf"
      and i: "int i < len buf" for buf i
  proof -
    have "?n * PCMBytesPerSample BitDepth4 < 2 ^ 63"
      unfolding b4 numSamples_def go_mul_def using wrap64_range(2) by simp
    moreover have "0 \<le> ?n"
    proof (rule ccontr)
      assume "\<not> 0 \<le> ?n"
      then have neg: "?n < 0" by simp
      then have "numBytes sampleRate BitDepth4 channels durationSec = ?n"
        unfolding numBytes_def b4 go_mul_def
        using wrap64_range(1) [of "go_mul sampleRate durationSec * channels"]
        by (simp add: wrap64_id numSamples_def go_mul_def)
      with neg g show False
        by (simp add: GenerateWhiteNoise_not_entered make_bytes_def)
    qed
    ultimately have "buf = noise_bytes BitDepth4 (nat ?n) xorshiftSeed"
      using GenerateWhiteNoise_exact [OF enumerated_simps(1), of sampleRate durationSec channels] g
      by simp
    then obtain k where b: "buf = noise_bytes BitDepth4 k xorshiftSeed" ..
    have "len buf = int k"
      unfolding b len_def
      using length_noise_bytes [OF enumerated_simps(1), where ?s0.0 = 0] ls4 by simp
    with i have j: "i < k" by simp
    have "get_byte (noise_bytes BitDepth4 k xorshiftSeed) (int i) =
          Some (ucast ((xorshift ^^ Suc i) xorshiftSeed mod 14 - 7))"
      by (rule noise_one_byte [OF enumerated_simps(1) _ j])
        (simp add: sample_bytes_def depth_defs)
    then show ?thesis
      unfolding b using sample4_range by blast
  qed
  have ret: "\<exists>buf. GenerateWhiteNoise sampleRate BitDepth4 channels durationSec = Some buf
           \<and> len buf = sampleRate * durationSec * channels"
    if "0 \<le> sampleRate * durationSec * channels" "sampleRate * durationSec * channels < 2 ^ 63"
    using GenerateWhiteNoise_returns [OF enumerated_simps(1) that(1)] that(2) unfolding b4 by simp
  show ?thesis using r ret by blast
qed

theorem synthesized_4bit_range_witness:
  "(0::int) \<le> 1 * 1 * 2 \<and> (1 * 1 * 2 :: int) < 2 ^ 63
   \<and> (\<exists>buf. GenerateWhiteNoise 1 BitDepth4 2 1 = Some buf \<and> len buf = 2
         \<and> (\<exists>b. get_byte buf 1 = Some b \<and> - 7 \<le> sint b \<and> sint b \<le> 6))"
proof -
  note T = synthesized_4bit_range [of 1 2 1]
  have n: "(0::int) \<le> 1 * 1 * 2 \<and> (1 * 1 * 2 :: int) < 2 ^ 63" by simp
  with T obtain buf where
    g: "GenerateWhiteNoise 1 BitDepth4 2 1 = Some buf" and l: "len buf = 1 * 1 * 2"
    by blast
  from T g have
    r: "\<forall>i. int i < len buf \<longrightarrow>
          (\<exists>b. get_byte buf (int i) = Some b
             \<and> b = ucast ((xorshift ^^ Suc i) xorshiftSeed mod 14 - 7)
             \<and> - 7 \<le> sint b \<and> sint b \<le> 6)"
    by blast
  from r [rule_format, of 1] show ?thesis
    using g l by auto
qed

section \<open>What the diff reporter adds to the test output\<close>

lemma show_loop_messages:
  "\<exists>ms. messages (snd (show_loop fuel label e a fs md idx shown t)) = messages t @ ms
      \<and> (\<forall>m \<in> set ms. is_FrameDiff m)
      \<and> failed (snd (show_loop fuel label e a fs md idx shown t)) = failed t"
proof (induction fuel arbitrary: idx shown t)
  case 0
  show ?case by simp
next
  case (Suc fuel)
  let ?t' = "\<lambda>q ef af. Logf t (FrameDiff label q ef af)"
  have step: "\<exists>ms. messages (snd (show_loop fuel label e a fs md i s (?t' q ef af))) = messages t @ ms
      \<and> (\<forall>m \<in> set ms. is_FrameDiff m)
      \<and> failed (snd (show_loop fuel label e a fs md i s (?t' q ef af))) = failed t" for i s q ef af
  proof -
    from Suc.IH [of i s "?t' q ef af"] obtain ms where
      "messages (snd (show_loop fuel label e a fs md i s (?t' q ef af))) = messages (?t' q ef af) @ ms"
      "\<forall>m \<in> set ms. is_FrameDiff m"
      "failed (snd (show_loop fuel label e a fs md i s (?t' q ef af))) = failed (?t' q ef af)"
      by blast
    then show ?thesis
      by (intro exI [of _ "FrameDiff label q ef af # ms"]) (simp add: Logf_def)
  qed
  show ?case
    using Suc.IH step
    by (simp split: option.split)
qed

lemma ShowDiffs_messages:
  "\<exists>ms. messages (snd (ShowDiffs fuel t label e a bitDepth channels md)) = messages t @ ms
      \<and> (\<forall>m \<in> set ms. is_FrameDiff m)
      \<and> failed (snd (ShowDiffs fuel t label e a bitDepth channels md)) = failed t"
  unfolding ShowDiffs_def Let_def by (rule show_loop_messages)

text \<open>
  With a positive frame size the loop of the diff reporter ends without a panic: fuel
  for as many iterations as the common length has bytes is enough. (The lengths of
  the buffers are values of a 64-bit \<open>int\<close>.)
\<close>

lemma show_loop_returns:
  assumes "0 < frameSize" and "frameSize < 2 ^ 63"
    and "len expected < 2 ^ 63" and "len actual < 2 ^ 63"
  shows "0 \<le> idx \<Longrightarrow> nat (min (len expected) (len actual) - frameSize - idx) \<le> fuel \<Longrightarrow>
         fst (show_loop fuel label expected actual frameSize maxDiffs idx shown t) = Returned"
proof (induction fuel arbitrary: idx shown t)
  case 0
  define M where "M = min (len expected) (len actual)"
  have "0 \<le> M" "M < 2 ^ 63" using assms(3,4) by (simp_all add: M_def len_def)
  then have "- (2 ^ 63) \<le> M - frameSize" "M - frameSize < 2 ^ 63"
    using assms(1,2) by simp_all
  then have "go_sub M frameSize = M - frameSize"
    unfolding go_sub_def by (rule wrap64_id)
  then show ?case using 0 by (simp add: M_def)
next
  case (Suc fuel)
  define M where "M = min (len expected) (len actual)"
  have M: "0 \<le> M" "M < 2 ^ 63" using assms(3,4) by (simp_all add: M_def len_def)
  then have "- (2 ^ 63) \<le> M - frameSize" "M - frameSize < 2 ^ 63"
    using assms(1,2) by simp_all
  then have sub: "go_sub M frameSize = M - frameSize"
    unfolding go_sub_def by (rule wrap64_id)
  show ?case
  proof (cases "idx < M - frameSize \<and> shown < maxDiffs")
    case False
    then show ?thesis using sub by (auto simp: M_def)
  next
    case True
    then have lt: "idx + frameSize < M" by linarith
    then have "- (2 ^ 63) \<le> idx + frameSize" "idx + frameSize < 2 ^ 63"
      using Suc.prems(1) assms(1) M(2) by simp_all
    then have add: "go_add idx frameSize = idx + frameSize"
      unfolding go_add_def by (rule wrap64_id)
    have hi: "idx + frameSize \<le> len expected" "idx + frameSize \<le> len actual"
      using lt by (simp_all add: M_def)
    obtain ef af where
      s: "go_slice expected idx (idx + frameSize) = Some ef"
         "go_slice actual idx (idx + frameSize) = Some af"
      using hi Suc.prems(1) assms(1) by (simp add: go_slice_def)
    obtain q where q: "go_div idx frameSize = Some q"
      using assms(1) by (simp add: go_div_def)
    have nx: "0 \<le> idx + frameSize"
      "nat (min (len expected) (len actual) - frameSize - (idx + frameSize)) \<le> fuel"
      using Suc.prems assms(1) True by (simp_all add: M_def)
    show ?thesis
      using True s q Suc.IH [OF nx] sub add by (simp add: M_def)
  qed
qed

lemma ShowDiffs_returns:
  assumes "0 < go_mul (PCMBytesPerSample bitDepth) channels"
    and "len expected < 2 ^ 63" and "len actual < 2 ^ 63"
    and "nat (min (len expected) (len actual)) \<le> fuel"
  shows "fst (ShowDiffs fuel t label expected actual bitDepth channels maxDiffs) = Returned"
proof -
  have "go_mul (PCMBytesPerSample bitDepth) channels < 2 ^ 63"
    unfolding go_mul_def by (rule wrap64_range)
  with assms show ?thesis
    unfolding ShowDiffs_def Let_def
    by (intro show_loop_returns) simp_all
qed

section \<open>The lossy comparator: bit depth and length checks\<close>

text \<open>
  C9. For a bit depth other than 16 the lossy comparator marks the test failed with the
  one message about the unsupported depth and returns at once, whatever the buffers
  and the channel count: no length check, no sample comparison, no diff report.
\<close>

theorem lossy_rejects_other_depths:
  "bitDepth \<noteq> BitDepth16 \<Longrightarrow>
   CompareLossySamples fuel t pcmA pcmB bitDepth channels
     = (Returned, Errorf t (UnsupportedDepth bitDepth))
   \<and> failed (snd (CompareLossySamples fuel t pcmA pcmB bitDepth channels))"
  by (simp add: CompareLossySamples_def Errorf_def)

theorem lossy_rejects_other_depths_witness:
  "BitDepth8 \<noteq> BitDepth16
   \<and> CompareLossySamples 0 new_T [1, 2] [1, 2] BitDepth8 2
       = (Returned, \<lparr>failed = True, messages = [UnsupportedDepth 8]\<rparr>)"
  using lossy_rejects_other_depths [of BitDepth8 0 new_T "[1, 2]" "[1, 2]" 2]
  by (simp add: depth_defs Errorf_def new_T_def)

lemma lossy_loop_total:
  assumes "\<forall>i \<in> set idxs. i * 2 + 1 < length pcmA \<and> i * 2 + 1 < length pcmB"
  shows "\<exists>r. lossy_loop pcmA pcmB idxs st = Some r"
  using assms
proof (induction idxs arbitrary: st)
  case Nil
  show ?case by simp
next
  case (Cons i idxs)
  then show ?case
    by (simp add: Uint16_def len_def)
qed

lemma lossy_loop_upto_total:
  "n = nat (min (len pcmA) (len pcmB) sdiv 2) \<Longrightarrow> \<exists>r. lossy_loop pcmA pcmB [0..<n] st = Some r"
  by (rule lossy_loop_total) (auto simp: len_def signed_divide_int_def sgn_if)

lemma tolerance_eq:
  "go_mul (go_mul samplesPerFrame channels) 2 = wrap64 (1152 * channels * 2)"
  by (simp add: go_mul_def samplesPerFrame_def wrap64_mult_left)

lemma tolerance_nonneg:
  assumes "0 \<le> channels" and "channels \<le> 4003199668773774"
  shows "wrap64 (1152 * channels * 2) = 1152 * channels * 2 \<and> 0 \<le> wrap64 (1152 * channels * 2)"
proof -
  have "- (2 ^ 63) \<le> 1152 * channels * 2" "1152 * channels * 2 < 2 ^ 63"
    using assms by simp_all
  then have "wrap64 (1152 * channels * 2) = 1152 * channels * 2" by (rule wrap64_id)
  then show ?thesis using assms(1) by simp
qed

text \<open>
  C5. At bit depth 16, for all buffers and every channel count, the lossy comparator
  reports a length mismatch exactly when \<open>|len(pcmA) - len(pcmB)|\<close> exceeds the
  tolerance that the 64-bit \<open>int\<close> holds for \<open>1152 * channels * 2\<close>; when it does, that
  failure is the only thing reported and the call returns before the samples are
  compared. For every channel count whose product \<open>1152 * channels * 2\<close> fits the
  64-bit \<open>int\<close>, the tolerance is the product itself. For every amount of fuel given
  to the diff reporter.
\<close>

theorem lossy_length_check:
  "((\<exists>m \<in> set (messages (snd (CompareLossySamples fuel new_T pcmA pcmB BitDepth16 channels))).
        is_LengthMismatch m)
     \<longleftrightarrow> \<bar>len pcmA - len pcmB\<bar> > wrap64 (1152 * channels * 2))
   \<and> (\<bar>len pcmA - len pcmB\<bar> > wrap64 (1152 * channels * 2) \<longrightarrow>
        CompareLossySamples fuel new_T pcmA pcmB BitDepth16 channels
          = (Returned, Errorf new_T (LengthMismatch (len pcmA) (len pcmB)
               \<bar>len pcmA - len pcmB\<bar> (wrap64 (1152 * channels * 2)))))
   \<and> (- (2 ^ 63) \<le> 1152 * channels * 2 \<and> 1152 * channels * 2 < 2 ^ 63 \<longrightarrow>
        ((\<exists>m \<in> set (messages (snd (CompareLossySamples fuel new_T pcmA pcmB BitDepth16 channels))).
            is_LengthMismatch m)
         \<longleftrightarrow> \<bar>len pcmA - len pcmB\<bar> > 1152 * channels * 2))"
proof -
  let ?d = "\<bar>len pcmA - len pcmB\<bar>"
  let ?tol = "wrap64 (1152 * channels * 2)"
  let ?r = "CompareLossySamples fuel new_T pcmA pcmB BitDepth16 channels"
  have d: "(if len pcmA - len pcmB < 0 then - (len pcmA - len pcmB) else len pcmA - len pcmB) = ?d"
    by simp
  have over: "?r = (Returned, Errorf new_T (LengthMismatch (len pcmA) (len pcmB) ?d ?tol))"
    if "?d > ?tol"
    using that unfolding CompareLossySamples_def Let_def d tolerance_eq by simp
  have under: "\<not> (\<exists>m \<in> set (messages (snd ?r)). is_LengthMismatch m)" if le: "\<not> ?d > ?tol"
  proof -
    let ?t1 = "if ?d > 0 then Logf new_T (LengthDiff (len pcmA) (len pcmB) ?d) else new_T"
    let ?n = "min (len pcmA) (len pcmB) sdiv 2"
    have t1: "\<forall>m \<in> set (messages ?t1). \<not> is_LengthMismatch m"
      by (simp add: Logf_def new_T_def)
    obtain l m where loop: "lossy_loop pcmA pcmB [0..<nat ?n] (0, 0) = Some (l, m)"
      using lossy_loop_upto_total [OF refl, of pcmA pcmB "(0, 0)"] by fastforce
    show ?thesis
    proof (cases "l > ?n sdiv lossyLargeDiffPct")
      case False
      then have "?r = (Returned, ?t1)"
        using le loop unfolding CompareLossySamples_def Let_def d tolerance_eq by simp
      then show ?thesis using t1 by simp
    next
      case True
      let ?t2 = "Errorf ?t1 (LossyMismatch l ?n maxDiffPerSample m)"
      have r: "?r = ShowDiffs fuel ?t2 ''lossy comparison'' pcmA pcmB BitDepth16 channels
                      defaultMaxDiffSamples"
        using True le loop unfolding CompareLossySamples_def Let_def d tolerance_eq by simp
      obtain ms where ms: "messages (snd ?r) = messages ?t2 @ ms" "\<forall>m \<in> set ms. is_FrameDiff m"
        unfolding r using ShowDiffs_messages by blast
      have "\<not> is_LengthMismatch x" if "is_FrameDiff x" for x
        using that by (cases x) simp_all
      then show ?thesis
        using ms t1 by (auto simp: Errorf_def)
    qed
  qed
  have iff: "(\<exists>m \<in> set (messages (snd ?r)). is_LengthMismatch m) \<longleftrightarrow> ?d > ?tol"
    using over under by (auto simp: Errorf_def)
  have exact: "(\<exists>m \<in> set (messages (snd ?r)). is_LengthMismatch m)
      \<longleftrightarrow> ?d > 1152 * channels * 2"
    if "- (2 ^ 63) \<le> 1152 * channels * 2" "1152 * channels * 2 < 2 ^ 63"
    using iff wrap64_id [OF that] by simp
  show ?thesis
    using iff over exact by blast
qed

theorem lossy_length_check_witness:
  "- (2 ^ 63) \<le> (1152 * 2 * 2 :: int) \<and> (1152 * 2 * 2 :: int) < 2 ^ 63
   \<and> \<not> \<bar>len (replicate 4608 (0 :: byte)) - len ([] :: byte list)\<bar> > 1152 * 2 * 2
   \<and> CompareLossySamples 0 new_T (replicate 4608 0) [] BitDepth16 2
        \<noteq> (Returned, \<lparr>failed = True, messages = [LengthMismatch 4608 0 4608 4608]\<rparr>)
   \<and> \<bar>len (replicate 4609 (0 :: byte)) - len ([] :: byte list)\<bar> > 1152 * 2 * 2
   \<and> CompareLossySamples 0 new_T (replicate 4609 0) [] BitDepth16 2
        = (Returned, \<lparr>failed = True, messages = [LengthMismatch 4609 0 4609 4608]\<rparr>)"
proof -
  have w: "wrap64 (1152 * 2 * 2) = 4608" by (simp add: wrap64_def)
  have l: "len (replicate 4608 (0 :: byte)) = 4608" "len (replicate 4609 (0 :: byte)) = 4609"
    "len ([] :: byte list) = 0"
    by (simp_all add: len_def)
  have m: "is_LengthMismatch (LengthMismatch 4608 0 4608 4608)" by simp
  from lossy_length_check [of 0 "replicate 4608 0" "[]" 2]
  have "\<not> (\<exists>m \<in> set (messages (snd (CompareLossySamples 0 new_T (replicate 4608 0) [] BitDepth16 2))).
           is_LengthMismatch m)"
    unfolding w l by simp
  then have a: "CompareLossySamples 0 new_T (replicate 4608 0) [] BitDepth16 2
        \<noteq> (Returned, \<lparr>failed = True, messages = [LengthMismatch 4608 0 4608 4608]\<rparr>)"
    using m by auto
  from lossy_length_check [of 0 "replicate 4609 0" "[]" 2]
  have b: "CompareLossySamples 0 new_T (replicate 4609 0) [] BitDepth16 2
        = (Returned, \<lparr>failed = True, messages = [LengthMismatch 4609 0 4609 4608]\<rparr>)"
    unfolding w l by (simp add: Errorf_def new_T_def)
  show ?thesis using a b unfolding l by simp
qed

text \<open>
  With \<open>2^62\<close> channels the tolerance wraps around to 0: a length difference of two
  bytes is reported as a mismatch, although it does not exceed the exact product
  \<open>1152 * 2^62 * 2\<close>.
\<close>

theorem lossy_length_tolerance_wraps:
  "CompareLossySamples 0 new_T [0, 0] [] BitDepth16 (2 ^ 62)
     = (Returned, \<lparr>failed = True, messages = [LengthMismatch 2 0 2 0]\<rparr>)
   \<and> \<not> \<bar>len [0, 0 :: byte] - len ([] :: byte list)\<bar> > 1152 * 2 ^ 62 * 2"
proof -
  have w: "go_mul (go_mul samplesPerFrame (2 ^ 62)) 2 = 0"
    by (simp add: go_mul_def samplesPerFrame_def wrap64_def)
  have l: "len [0, 0 :: byte] = 2" "len ([] :: byte list) = 0"
    by (simp_all add: len_def)
  have "CompareLossySamples 0 new_T [0, 0] [] BitDepth16 (2 ^ 62)
     = (Returned, \<lparr>failed = True, messages = [LengthMismatch 2 0 2 0]\<rparr>)"
    unfolding CompareLossySamples_def Let_def w l by (simp add: Errorf_def new_T_def)
  then show ?thesis unfolding l by simp
qed

section \<open>The lossy comparator: counting large differences\<close>

lemma sdiv_nonneg: "0 \<le> a \<Longrightarrow> 0 < b \<Longrightarrow> a sdiv b = a div (b :: int)"
  by (simp add: signed_divide_int_def sgn_if)

lemma wrapped_abs_diff_exact:
  fixes x y :: "16 word"
  assumes "\<bar>sint x - sint y\<bar> \<le> 32767"
  shows "sint (wrapped_abs_diff x y) = \<bar>sint x - sint y\<bar>"
proof -
  have d: "sint (x - y) = sint x - sint y"
    using assms by (simp add: sint_word_ariths signed_take_bit_int_eq_self)
  have "sint (- (x - y)) = - (sint x - sint y)"
    using assms d by (simp add: sint_word_ariths signed_take_bit_int_eq_self)
  then show ?thesis
    using d by (simp add: wrapped_abs_diff_def)
qed

lemma Uint16_sample_word:
  "idx * 2 + 1 < length pcm \<Longrightarrow> Uint16 pcm (int idx * 2) = Some (sample_word pcm idx)"
  by (simp add: Uint16_def len_def sample_word_def nat_mult_distrib)

lemma fst_lossy_step:
  "fst (lossy_step a b (l, m)) = l + (if sint (wrapped_abs_diff a b) > maxDiffPerSample then 1 else 0)"
  by (simp add: lossy_step_def wrapped_abs_diff_def Let_def)

lemma lossy_loop_count:
  assumes "\<forall>i \<in> set idxs. i * 2 + 1 < length pcmA \<and> i * 2 + 1 < length pcmB"
  shows "\<exists>m'. lossy_loop pcmA pcmB idxs (l, m)
           = Some (l + int (length (filter (counted_large pcmA pcmB) idxs)), m')"
  using assms
proof (induction idxs arbitrary: l m)
  case Nil
  show ?case by simp
next
  case (Cons i idxs)
  obtain l1 m1 where s: "lossy_step (sample_word pcmA i) (sample_word pcmB i) (l, m) = (l1, m1)"
    by fastforce
  have l1: "l1 = l + (if counted_large pcmA pcmB i then 1 else 0)"
    using fst_lossy_step [of "sample_word pcmA i" "sample_word pcmB i" l m] s
    by (simp add: counted_large_def)
  from Cons.prems have "\<forall>j \<in> set idxs. j * 2 + 1 < length pcmA \<and> j * 2 + 1 < length pcmB"
    by simp
  from Cons.IH [OF this, of l1 m1] obtain m' where
    "lossy_loop pcmA pcmB idxs (l1, m1)
       = Some (l1 + int (length (filter (counted_large pcmA pcmB) idxs)), m')" ..
  then show ?case
    using Cons.prems s l1 by (simp add: Uint16_sample_word)
qed

lemma lossy_loop_upto_count:
  assumes "n = nat (min (len pcmA) (len pcmB) sdiv 2)"
  shows "\<exists>m'. lossy_loop pcmA pcmB [0..<n] (0, 0)
           = Some (int (length (filter (counted_large pcmA pcmB) [0..<n])), m')"
proof -
  have "\<forall>i \<in> set [0..<n]. i * 2 + 1 < length pcmA \<and> i * 2 + 1 < length pcmB"
    using assms by (auto simp: len_def sdiv_nonneg)
  from lossy_loop_count [OF this, of 0 0] show ?thesis by simp
qed

lemma counted_large_exact:
  assumes "\<bar>sample16 pcmA i - sample16 pcmB i\<bar> \<le> 32767"
  shows "counted_large pcmA pcmB i \<longleftrightarrow> \<bar>sample16 pcmA i - sample16 pcmB i\<bar> > 2"
  using wrapped_abs_diff_exact [of "sample_word pcmA i" "sample_word pcmB i"] assms
  by (simp add: counted_large_def sample16_def maxDiffPerSample_def)

lemma length_filter_mono:
  "(\<And>x. x \<in> set xs \<Longrightarrow> P x \<Longrightarrow> Q x) \<Longrightarrow> length (filter P xs) \<le> length (filter Q xs)"
  by (induction xs) auto

lemma lossy_pass:
  assumes "\<not> \<bar>len pcmA - len pcmB\<bar> > wrap64 (1152 * channels * 2)"
    and "n = min (len pcmA) (len pcmB) sdiv 2"
    and "int (length (filter (counted_large pcmA pcmB) [0..<nat n])) \<le> n div 100"
  shows "CompareLossySamples fuel t pcmA pcmB BitDepth16 channels
         = (Returned, if \<bar>len pcmA - len pcmB\<bar> > 0
                      then Logf t (LengthDiff (len pcmA) (len pcmB) \<bar>len pcmA - len pcmB\<bar>)
                      else t)"
proof -
  have d: "(if len pcmA - len pcmB < 0 then - (len pcmA - len pcmB) else len pcmA - len pcmB)
           = \<bar>len pcmA - len pcmB\<bar>"
    by simp
  have n0: "0 \<le> n" using assms(2) by (simp add: len_def sdiv_nonneg)
  obtain m' where "lossy_loop pcmA pcmB [0..<nat n] (0, 0)
      = Some (int (length (filter (counted_large pcmA pcmB) [0..<nat n])), m')"
    using lossy_loop_upto_count [of "nat n" pcmA pcmB] assms(2) by blast
  then show ?thesis
    using assms n0 unfolding CompareLossySamples_def Let_def d tolerance_eq
    by (simp add: lossyLargeDiffPct_def sdiv_nonneg)
qed

lemma lossy_fail:
  assumes "\<not> \<bar>len pcmA - len pcmB\<bar> > wrap64 (1152 * channels * 2)"
    and "n = min (len pcmA) (len pcmB) sdiv 2"
    and "int (length (filter (counted_large pcmA pcmB) [0..<nat n])) > n div 100"
  shows "failed (snd (CompareLossySamples fuel t pcmA pcmB BitDepth16 channels))
       \<and> (\<exists>m \<in> set (messages (snd (CompareLossySamples fuel t pcmA pcmB BitDepth16 channels))).
             is_LossyMismatch m)"
proof -
  let ?t1 = "if \<bar>len pcmA - len pcmB\<bar> > 0
             then Logf t (LengthDiff (len pcmA) (len pcmB) \<bar>len pcmA - len pcmB\<bar>) else t"
  let ?k = "int (length (filter (counted_large pcmA pcmB) [0..<nat n]))"
  have d: "(if len pcmA - len pcmB < 0 then - (len pcmA - len pcmB) else len pcmA - len pcmB)
           = \<bar>len pcmA - len pcmB\<bar>"
    by simp
  have n0: "0 \<le> n" using assms(2) by (simp add: len_def sdiv_nonneg)
  obtain m' where "lossy_loop pcmA pcmB [0..<nat n] (0, 0) = Some (?k, m')"
    using lossy_loop_upto_count [of "nat n" pcmA pcmB] assms(2) by blast
  then have r: "CompareLossySamples fuel t pcmA pcmB BitDepth16 channels
      = ShowDiffs fuel (Errorf ?t1 (LossyMismatch ?k n maxDiffPerSample m'))
          ''lossy comparison'' pcmA pcmB BitDepth16 channels defaultMaxDiffSamples"
    using assms n0 unfolding CompareLossySamples_def Let_def d tolerance_eq
    by (simp add: lossyLargeDiffPct_def sdiv_nonneg)
  obtain ms where
    "messages (snd (CompareLossySamples fuel t pcmA pcmB BitDepth16 channels))
       = messages (Errorf ?t1 (LossyMismatch ?k n maxDiffPerSample m')) @ ms"
    "failed (snd (CompareLossySamples fuel t pcmA pcmB BitDepth16 channels))
       = failed (Errorf ?t1 (LossyMismatch ?k n maxDiffPerSample m'))"
    unfolding r using ShowDiffs_messages by blast
  then show ?thesis
    by (auto simp: Errorf_def)
qed

text \<open>
  C4. For two 16-bit buffers of equal length and a channel count whose length
  tolerance \<open>1152 * channels * 2\<close>, as the 64-bit \<open>int\<close> holds it, is not negative (so
  that equal lengths pass the length check: every channel count from 0 to
  4003199668773774 is one, by lemma \<open>tolerance_nonneg\<close>), with \<open>N\<close> the number of
  samples:
  if every sample pair differs by exactly 2 as signed values, nothing is reported;
  if the pairs that differ by exactly 3 are more than 1% of \<open>N\<close>, the test is marked
  failed with the lossy mismatch message; if no pair differs by more than 3 and the
  pairs that differ by exactly 3 are fewer than 1% of \<open>N\<close>, nothing is reported.
\<close>

theorem lossy_tolerance_boundary:
  assumes "length pcmA = length pcmB" and "0 \<le> wrap64 (1152 * channels * 2)"
  shows
    "((\<forall>i < length pcmA div 2. \<bar>sample16 pcmA i - sample16 pcmB i\<bar> = 2) \<longrightarrow>
        CompareLossySamples fuel new_T pcmA pcmB BitDepth16 channels = (Returned, new_T))
   \<and> (100 * length (filter (\<lambda>i. \<bar>sample16 pcmA i - sample16 pcmB i\<bar> = 3)
                      [0..<length pcmA div 2]) > length pcmA div 2 \<longrightarrow>
        failed (snd (CompareLossySamples fuel new_T pcmA pcmB BitDepth16 channels))
        \<and> (\<exists>m \<in> set (messages (snd (CompareLossySamples fuel new_T pcmA pcmB BitDepth16 channels))).
              is_LossyMismatch m))
   \<and> ((\<forall>i < length pcmA div 2. \<bar>sample16 pcmA i - sample16 pcmB i\<bar> \<le> 3)
        \<and> 100 * length (filter (\<lambda>i. \<bar>sample16 pcmA i - sample16 pcmB i\<bar> = 3)
                      [0..<length pcmA div 2]) < length pcmA div 2 \<longrightarrow>
        CompareLossySamples fuel new_T pcmA pcmB BitDepth16 channels = (Returned, new_T))"
proof -
  let ?N = "length pcmA div 2"
  let ?D = "\<lambda>i. \<bar>sample16 pcmA i - sample16 pcmB i\<bar>"
  let ?K = "length (filter (counted_large pcmA pcmB) [0..<?N])"
  let ?K3 = "length (filter (\<lambda>i. ?D i = 3) [0..<?N])"
  have tol: "\<not> \<bar>len pcmA - len pcmB\<bar> > wrap64 (1152 * channels * 2)"
    using assms by (simp add: len_def)
  have n: "int ?N = min (len pcmA) (len pcmB) sdiv 2"
    using assms(1) by (simp add: len_def sdiv_nonneg zdiv_int)
  have same: "\<not> \<bar>len pcmA - len pcmB\<bar> > 0" using assms(1) by (simp add: len_def)
  have pass: "CompareLossySamples fuel new_T pcmA pcmB BitDepth16 channels = (Returned, new_T)"
    if "int ?K \<le> int ?N div 100"
    using lossy_pass [OF tol n, of fuel new_T] that same by simp
  have p1: "CompareLossySamples fuel new_T pcmA pcmB BitDepth16 channels = (Returned, new_T)"
    if h: "\<forall>i < ?N. ?D i = 2"
  proof -
    have "\<not> counted_large pcmA pcmB i" if "i \<in> set [0..<?N]" for i
      using counted_large_exact [of pcmA i pcmB] h that by simp
    then have "filter (counted_large pcmA pcmB) [0..<?N] = []"
      by (simp only: filter_empty_conv) blast
    then show ?thesis by (intro pass) simp
  qed
  have p2: "failed (snd (CompareLossySamples fuel new_T pcmA pcmB BitDepth16 channels))
        \<and> (\<exists>m \<in> set (messages (snd (CompareLossySamples fuel new_T pcmA pcmB BitDepth16 channels))).
              is_LossyMismatch m)"
    if h: "100 * ?K3 > ?N"
  proof -
    have "?K3 \<le> ?K"
      by (rule length_filter_mono) (use counted_large_exact [of pcmA _ pcmB] in simp)
    then have "?N div 100 < ?K" using h by linarith
    then have "int ?N div 100 < int ?K" by (simp flip: zdiv_int)
    with lossy_fail [OF tol n, of fuel new_T] show ?thesis by simp
  qed
  have p3: "CompareLossySamples fuel new_T pcmA pcmB BitDepth16 channels = (Returned, new_T)"
    if h: "\<forall>i < ?N. ?D i \<le> 3" and k: "100 * ?K3 < ?N"
  proof -
    have "counted_large pcmA pcmB i \<longleftrightarrow> ?D i = 3" if "i \<in> set [0..<?N]" for i
      using counted_large_exact [of pcmA i pcmB] h that by force
    then have "filter (counted_large pcmA pcmB) [0..<?N] = filter (\<lambda>i. ?D i = 3) [0..<?N]"
      by (intro filter_cong refl)
    then have "?K = ?K3" by simp
    moreover have "?K3 \<le> ?N div 100" using k by linarith
    ultimately have "int ?K \<le> int (?N div 100)" by simp
    then have "int ?K \<le> int ?N div 100" by (simp add: zdiv_int)
    then show ?thesis by (rule pass)
  qed
  show ?thesis using p1 p2 p3 by blast
qed

theorem lossy_tolerance_boundary_witness:
  "0 \<le> wrap64 (1152 * 1 * 2)
   \<and> length [2, 0 :: byte] div 2 = 1 \<and> \<bar>sample16 [2, 0] 0 - sample16 [0, 0] 0\<bar> = 2
   \<and> CompareLossySamples 5 new_T [2, 0] [0, 0] BitDepth16 1 = (Returned, new_T)
   \<and> 100 * length (filter (\<lambda>i. \<bar>sample16 [3, 0] i - sample16 [0, 0] i\<bar> = 3)
                     [0..<length [3, 0 :: byte] div 2]) > length [3, 0 :: byte] div 2
   \<and> failed (snd (CompareLossySamples 5 new_T [3, 0] [0, 0] BitDepth16 1))
   \<and> 100 * length (filter (\<lambda>i. \<bar>sample16 (3 # replicate 201 0) i - sample16 (replicate 202 0) i\<bar> = 3)
                     [0..<length (3 # replicate 201 (0 :: byte)) div 2]) = 100
   \<and> CompareLossySamples 5 new_T (3 # replicate 201 0) (replicate 202 0) BitDepth16 1
       = (Returned, new_T)"
proof -
  have s2: "sample16 [2, 0] 0 = 2" "sample16 [3, 0] 0 = 3" "sample16 [0, 0] 0 = 0"
    by (simp_all add: sample16_def sample_word_def)
  have h1: "\<forall>i < length [2, 0 :: byte] div 2. \<bar>sample16 [2, 0] i - sample16 [0, 0] i\<bar> = 2"
    by (simp add: s2)
  have h2: "100 * length (filter (\<lambda>i. \<bar>sample16 [3, 0] i - sample16 [0, 0] i\<bar> = 3)
                     [0..<length [3, 0 :: byte] div 2]) > length [3, 0 :: byte] div 2"
    by (simp add: s2)
  let ?a = "3 # replicate 201 (0 :: byte)" and ?b = "replicate 202 (0 :: byte)"
  have b: "sample16 ?b i = 0" if "i < 101" for i
    using that by (simp add: sample16_def sample_word_def)
  have a0: "sample16 ?a 0 = 3"
    by (simp add: sample16_def sample_word_def)
  have a: "sample16 ?a i = 0" if "0 < i" "i < 101" for i
    using that by (simp add: sample16_def sample_word_def nth_Cons')
  have D: "\<bar>sample16 ?a i - sample16 ?b i\<bar> = (if i = 0 then 3 else 0)" if "i < 101" for i
    using that a [of i] a0 b [of i] by (cases "i = 0") simp_all
  have l: "length ?a div 2 = 101" by simp
  have "filter (\<lambda>i. \<bar>sample16 ?a i - sample16 ?b i\<bar> = 3) [0..<101] = filter (\<lambda>i. i = 0) [0..<101]"
    by (rule filter_cong) (simp_all add: D)
  also have "\<dots> = [0]"
    by (simp add: upt_conv_Cons [of 0 101] filter_empty_conv)
  finally have k3: "length (filter (\<lambda>i. \<bar>sample16 ?a i - sample16 ?b i\<bar> = 3)
                      [0..<length ?a div 2]) = 1"
    by (simp only: l) simp
  have h3: "(\<forall>i < length ?a div 2. \<bar>sample16 ?a i - sample16 ?b i\<bar> \<le> 3)
        \<and> 100 * length (filter (\<lambda>i. \<bar>sample16 ?a i - sample16 ?b i\<bar> = 3)
                      [0..<length ?a div 2]) < length ?a div 2"
    unfolding k3 by (simp only: l) (simp add: D)
  have e1: "length [2, 0 :: byte] = length [0, 0 :: byte]"
    and e2: "length [3, 0 :: byte] = length [0, 0 :: byte]"
    and e3: "length ?a = length ?b"
    by simp_all
  have c: "0 \<le> wrap64 (1152 * 1 * 2)" by (simp add: wrap64_def)
  from lossy_tolerance_boundary [OF e1 c, of 5] h1
  have r1: "CompareLossySamples 5 new_T [2, 0] [0, 0] BitDepth16 1 = (Returned, new_T)"
    by blast
  from lossy_tolerance_boundary [OF e2 c, of 5] h2
  have r2: "failed (snd (CompareLossySamples 5 new_T [3, 0] [0, 0] BitDepth16 1))"
    by blast
  from lossy_tolerance_boundary [OF e3 c, of 5] h3
  have r3: "CompareLossySamples 5 new_T ?a ?b BitDepth16 1 = (Returned, new_T)"
    by blast
  show ?thesis
    using c s2 r1 h2 r2 k3 r3 by simp
qed

text \<open>
  C1. The difference of two samples is computed in \<open>int16\<close>. For the samples \<open>32767\<close> and
  \<open>-32768\<close> the exact difference is 65535, the \<open>int16\<close> difference wraps to \<open>-1\<close>, the
  sample is not counted as a large diff, and two one-sample buffers that differ by the
  whole range compare as equal within tolerance. (Where the exact difference is at most
  32767, lemma \<open>counted_large_exact\<close> shows the count is the exact one.)
\<close>

theorem lossy_wrapped_difference_not_counted:
  "Uint16 [0xFF, 0x7F] 0 = Some 0x7FFF
   \<and> Uint16 [0x00, 0x80] 0 = Some 0x8000
   \<and> \<bar>sint (0x7FFF :: 16 word) - sint (0x8000 :: 16 word)\<bar> = 65535
   \<and> lossy_step 0x7FFF 0x8000 (0, 0) = (0, 1)
   \<and> CompareLossySamples fuel new_T [0xFF, 0x7F] [0x00, 0x80] BitDepth16 1 = (Returned, new_T)"
proof -
  have u: "Uint16 [0xFF, 0x7F] 0 = Some 0x7FFF" "Uint16 [0x00, 0x80] 0 = Some 0x8000"
    by (simp_all add: Uint16_def len_def)
  have s: "lossy_step 0x7FFF 0x8000 (0, 0) = (0, 1)"
    by (simp add: lossy_step_def maxDiffPerSample_def)
  have "CompareLossySamples fuel new_T [0xFF, 0x7F] [0x00, 0x80] BitDepth16 1 = (Returned, new_T)"
    by (simp add: CompareLossySamples_def len_def samplesPerFrame_def signed_divide_int_def
        u s lossyLargeDiffPct_def go_mul_def wrap64_def)
  then show ?thesis using u s by simp
qed

section \<open>The exact comparator: what is reported\<close>

lemma lossless_loop_eq:
  assumes "\<forall>i \<in> set idxs. i < length e \<and> i < length a"
  shows "lossless_loop e a idxs (d, f) =
         Some (d + int (length (filter (differs e a) idxs)),
               if f = - 1 then (case filter (differs e a) idxs of [] \<Rightarrow> - 1 | i # _ \<Rightarrow> int i)
               else f)"
  using assms
proof (induction idxs arbitrary: d f)
  case Nil
  show ?case by simp
next
  case (Cons i idxs)
  then have IH: "\<And>d f. lossless_loop e a idxs (d, f) =
         Some (d + int (length (filter (differs e a) idxs)),
               if f = - 1 then (case filter (differs e a) idxs of [] \<Rightarrow> - 1 | i # _ \<Rightarrow> int i)
               else f)"
    by simp
  from Cons.prems have g: "get_byte e (int i) = Some (e ! i)" "get_byte a (int i) = Some (a ! i)"
    by (simp_all add: get_byte_def len_def)
  have di: "differs e a i \<longleftrightarrow> e ! i \<noteq> a ! i" by (simp add: differs_def)
  show ?case
    by (simp add: g IH di)
qed

lemma nat_min_len: "nat (min (len e) (len a)) = min (length e) (length a)"
  by (simp add: len_def min_def)

lemma first_of_filter_upt:
  "filter P [0..<n] = i # rest \<Longrightarrow> i < n \<and> P i \<and> (\<forall>j < i. \<not> P j)"
proof (induction n arbitrary: rest)
  case 0
  then show ?case by simp
next
  case (Suc n)
  show ?case
  proof (cases "filter P [0..<n]")
    case Nil
    then have none: "\<forall>j < n. \<not> P j" by (simp add: filter_empty_conv)
    with Suc.prems Nil have "P n \<and> i = n" by (simp split: if_splits)
    with none show ?thesis by simp
  next
    case (Cons i' r')
    with Suc.prems have "i' = i" by (simp split: if_splits)
    with Suc.IH [of r'] Cons show ?thesis by auto
  qed
qed

lemma lossless_no_difference:
  assumes "\<forall>i. i < length e \<and> i < length a \<longrightarrow> e ! i = a ! i"
  shows "CompareLosslessSamples fuel t label e a bitDepth channels = (Returned, t)"
proof -
  let ?n = "nat (min (len e) (len a))"
  have r: "\<forall>i \<in> set [0..<?n]. i < length e \<and> i < length a" by (simp add: nat_min_len)
  have "filter (differs e a) [0..<?n] = []"
    using assms by (simp add: filter_empty_conv differs_def nat_min_len)
  then show ?thesis
    by (simp add: CompareLosslessSamples_def lossless_loop_eq [OF r])
qed

lemma lossless_difference:
  assumes "PCMBytesPerSample bitDepth \<noteq> 0" and "channels \<noteq> 0"
    and "filter (differs e a) [0..<nat (min (len e) (len a))] = i # rest"
  shows "CompareLosslessSamples fuel t label e a bitDepth channels =
         ShowDiffs fuel
           (Errorf t (PCMMismatch label (1 + int (length rest)) (min (len e) (len a)) (int i)
                        (int i sdiv PCMBytesPerSample bitDepth sdiv channels)))
           label e a bitDepth channels defaultMaxDiffSamples"
proof -
  let ?n = "nat (min (len e) (len a))"
  have r: "\<forall>i \<in> set [0..<?n]. i < length e \<and> i < length a" by (simp add: nat_min_len)
  show ?thesis
    using assms by (simp add: CompareLosslessSamples_def lossless_loop_eq [OF r] go_div_def)
qed

text \<open>
  C8. For a bit depth whose bytes per sample are not zero and a channel count that is
  not zero (otherwise the sample index is a division by zero), and for all buffers:
  the exact comparator marks the test failed exactly when the buffers differ at some
  byte below both lengths; when one buffer is a prefix of the other it reports nothing,
  whatever the lengths; and a failure's first message carries the offset of the first
  differing byte and the sample index \<open>offset / bytesPerSample / channels\<close>.
\<close>

theorem lossless_reports_iff_difference:
  assumes "PCMBytesPerSample bitDepth \<noteq> 0" and "channels \<noteq> 0"
  shows
    "(failed (snd (CompareLosslessSamples fuel new_T label e a bitDepth channels))
        \<longleftrightarrow> (\<exists>i. i < length e \<and> i < length a \<and> e ! i \<noteq> a ! i))
   \<and> (take (length e) a = e \<or> take (length a) e = a \<longrightarrow>
        CompareLosslessSamples fuel new_T label e a bitDepth channels = (Returned, new_T))
   \<and> (failed (snd (CompareLosslessSamples fuel new_T label e a bitDepth channels)) \<longrightarrow>
        (\<exists>differences firstDiff.
            firstDiff < length e \<and> firstDiff < length a \<and> e ! firstDiff \<noteq> a ! firstDiff
          \<and> (\<forall>j < firstDiff. e ! j = a ! j)
          \<and> hd (messages (snd (CompareLosslessSamples fuel new_T label e a bitDepth channels)))
              = PCMMismatch label differences (min (len e) (len a)) (int firstDiff)
                  (int firstDiff sdiv PCMBytesPerSample bitDepth sdiv channels)))"
proof (cases "filter (differs e a) [0..<nat (min (len e) (len a))]")
  case Nil
  then have same: "\<forall>i. i < length e \<and> i < length a \<longrightarrow> e ! i = a ! i"
    by (simp add: filter_empty_conv differs_def nat_min_len)
  then have "CompareLosslessSamples fuel new_T label e a bitDepth channels = (Returned, new_T)"
    by (rule lossless_no_difference)
  then show ?thesis
    using same by (simp add: new_T_def)
next
  case (Cons i rest)
  let ?r = "CompareLosslessSamples fuel new_T label e a bitDepth channels"
  let ?m = "PCMMismatch label (1 + int (length rest)) (min (len e) (len a)) (int i)
              (int i sdiv PCMBytesPerSample bitDepth sdiv channels)"
  from first_of_filter_upt [of "differs e a" "nat (min (len e) (len a))" i rest]
  have i: "i < length e" "i < length a" "e ! i \<noteq> a ! i" "\<forall>j < i. e ! j = a ! j"
    using Cons by (simp_all add: differs_def nat_min_len)
  obtain ms where "messages (snd ?r) = messages (Errorf new_T ?m) @ ms"
    "failed (snd ?r) = failed (Errorf new_T ?m)"
    unfolding lossless_difference [OF assms Cons] using ShowDiffs_messages by blast
  then have f: "failed (snd ?r)" and h: "hd (messages (snd ?r)) = ?m"
    by (simp_all add: Errorf_def new_T_def)
  have np: "\<not> (take (length e) a = e \<or> take (length a) e = a)"
  proof
    assume "take (length e) a = e \<or> take (length a) e = a"
    moreover have "take (length e) a ! i = a ! i" "take (length a) e ! i = e ! i"
      using i(1,2) by simp_all
    ultimately have "e ! i = a ! i" by auto
    with i(3) show False by simp
  qed
  have "\<exists>differences firstDiff.
            firstDiff < length e \<and> firstDiff < length a \<and> e ! firstDiff \<noteq> a ! firstDiff
          \<and> (\<forall>j < firstDiff. e ! j = a ! j)
          \<and> hd (messages (snd ?r))
              = PCMMismatch label differences (min (len e) (len a)) (int firstDiff)
                  (int firstDiff sdiv PCMBytesPerSample bitDepth sdiv channels)"
    using h i by (intro exI [of _ "1 + int (length rest)"] exI [of _ i]) simp
  moreover have "\<exists>i. i < length e \<and> i < length a \<and> e ! i \<noteq> a ! i"
    using i by (intro exI [of _ i]) simp
  ultimately show ?thesis
    using f np by simp
qed

theorem lossless_reports_iff_difference_witness:
  "PCMBytesPerSample BitDepth16 = 2
   \<and> failed (snd (CompareLosslessSamples 5 new_T ''x'' [1, 2, 3, 4] [1, 2, 9, 4, 7] BitDepth16 1))
   \<and> (\<exists>differences.
         hd (messages (snd (CompareLosslessSamples 5 new_T ''x'' [1, 2, 3, 4] [1, 2, 9, 4, 7]
                              BitDepth16 1)))
         = PCMMismatch ''x'' differences 4 2 1)
   \<and> CompareLosslessSamples 5 new_T ''x'' [1, 2] [1, 2, 3] BitDepth16 1 = (Returned, new_T)"
proof -
  let ?e = "[1, 2, 3, 4] :: byte list" and ?a = "[1, 2, 9, 4, 7] :: byte list"
  have b: "PCMBytesPerSample BitDepth16 = 2" by (simp add: PCMBytesPerSample_def depth_defs)
  then have b0: "PCMBytesPerSample BitDepth16 \<noteq> 0" and c: "(1 :: int) \<noteq> 0" by simp_all
  note T = lossless_reports_iff_difference [OF b0 c, of 5 "''x''"]
  have "2 < length ?e \<and> 2 < length ?a \<and> ?e ! 2 \<noteq> ?a ! 2" by simp
  then have ex: "\<exists>i. i < length ?e \<and> i < length ?a \<and> ?e ! i \<noteq> ?a ! i" ..
  with T [of ?e ?a] have f: "failed (snd (CompareLosslessSamples 5 new_T ''x'' ?e ?a BitDepth16 1))"
    by blast
  with T [of ?e ?a] obtain d fd where
    fd: "fd < length ?e" "?e ! fd \<noteq> ?a ! fd" and
    h: "hd (messages (snd (CompareLosslessSamples 5 new_T ''x'' ?e ?a BitDepth16 1)))
        = PCMMismatch ''x'' d (min (len ?e) (len ?a)) (int fd)
            (int fd sdiv PCMBytesPerSample BitDepth16 sdiv 1)"
    by blast
  from fd(1) have "fd = 0 \<or> fd = 1 \<or> fd = 2 \<or> fd = 3" by auto
  with fd(2) have "fd = 2" by auto
  with h have h': "hd (messages (snd (CompareLosslessSamples 5 new_T ''x'' ?e ?a BitDepth16 1)))
        = PCMMismatch ''x'' d 4 2 1"
    by (simp add: b len_def signed_divide_int_def)
  have "take (length [1, 2 :: byte]) [1, 2, 3 :: byte] = [1, 2]" by simp
  with T [of "[1, 2]" "[1, 2, 3]"]
  have p: "CompareLosslessSamples 5 new_T ''x'' [1, 2] [1, 2, 3] BitDepth16 1 = (Returned, new_T)"
    by blast
  show ?thesis using b f h' p by blast
qed

section \<open>The diff reporter stops one frame early\<close>

text \<open>
  C2. Two 16-bit mono buffers of two frames that differ in the second frame only, the
  last complete frame of the common length, and a maximum of 5: the loop condition
  \<open>idx < min(len(expected), len(actual)) - frameSize\<close> is false at \<open>idx = 2\<close>, the frame
  is never compared, and nothing is reported, however much fuel the loop is given. A
  difference in the first frame is reported.
\<close>

theorem ShowDiffs_skips_last_frame:
  "snd (ShowDiffs fuel new_T label [0, 0, 0, 0] [0, 0, 1, 0] BitDepth16 1 5) = new_T
   \<and> ShowDiffs (Suc fuel) new_T label [0, 0, 0, 0] [0, 0, 1, 0] BitDepth16 1 5 = (Returned, new_T)
   \<and> ShowDiffs (Suc (Suc fuel)) new_T label [0, 0, 0, 0] [1, 0, 0, 0] BitDepth16 1 5
       = (Returned, Logf new_T (FrameDiff label 0 [0, 0] [1, 0]))"
proof -
  have b: "PCMBytesPerSample BitDepth16 = 2" by (simp add: PCMBytesPerSample_def depth_defs)
  have 1: "ShowDiffs (Suc n) new_T label [0, 0, 0, 0] [0, 0, 1, 0] BitDepth16 1 5 = (Returned, new_T)"
    for n
    by (cases n) (simp_all add: ShowDiffs_def b len_def go_slice_def go_mul_def go_sub_def
        go_add_def wrap64_def)
  have 0: "snd (ShowDiffs 0 new_T label [0, 0, 0, 0] [0, 0, 1, 0] BitDepth16 1 5) = new_T"
    by (simp add: ShowDiffs_def b len_def go_mul_def go_sub_def wrap64_def)
  have 2: "ShowDiffs (Suc (Suc n)) new_T label [0, 0, 0, 0] [1, 0, 0, 0] BitDepth16 1 5
       = (Returned, Logf new_T (FrameDiff label 0 [0, 0] [1, 0]))" for n
    by (cases n) (simp_all add: ShowDiffs_def b len_def go_slice_def go_div_def signed_divide_int_def
        go_mul_def go_sub_def go_add_def wrap64_def)
  show ?thesis using 0 1 [of fuel] 1 2 [of fuel] by (cases fuel) simp_all
qed

section \<open>Mono to stereo: every sample twice\<close>

lemma concat_chunk:
  assumes "\<And>j. j < n \<Longrightarrow> length (f j) = m"
  shows "length (concat (map f [0..<n])) = n * m
       \<and> (\<forall>i < n. take m (drop (i * m) (concat (map f [0..<n]))) = f i)"
  using assms
proof (induction n)
  case 0
  show ?case by simp
next
  case (Suc n)
  let ?xs = "concat (map f [0..<n])"
  from Suc have lx: "length ?xs = n * m"
    and ch: "\<forall>i < n. take m (drop (i * m) ?xs) = f i" and lf: "length (f n) = m"
    by simp_all
  have "take m (drop (i * m) (?xs @ f n)) = f i" if "i < Suc n" for i
  proof (cases "i < n")
    case True
    then have "Suc i * m \<le> n * m" by (simp only: mult_le_mono1 Suc_leI)
    then have "i * m + m \<le> length ?xs" using lx by simp
    then show ?thesis using ch True by simp
  next
    case False
    with that have "i = n" by simp
    then show ?thesis using lx lf by simp
  qed
  then show ?case using lx lf by simp
qed

lemma go_slice_nat:
  "lo \<le> hi \<Longrightarrow> hi \<le> length s \<Longrightarrow>
   go_slice s (int lo) (int hi) = Some (take (hi - lo) (drop lo s))"
  by (simp add: go_slice_def len_def)

lemma copy_to_nat:
  "off + length src \<le> length dst \<Longrightarrow>
   copy_to dst (int off) src = Some (take off dst @ src @ drop (off + length src) dst)"
  by (auto simp: copy_to_def len_def min_def Let_def)

lemma mono_loop_eq:
  assumes "n * bps \<le> length monoPCM"
  shows "k \<le> n \<Longrightarrow> length stereo = n * bps * 2 \<Longrightarrow>
         mono_loop monoPCM (int bps) [k..<n] stereo =
         Some (take (k * bps * 2) stereo @ stereo_frames monoPCM bps [k..<n])"
proof (induction "n - k" arbitrary: k stereo)
  case 0
  then show ?case by (simp add: stereo_frames_def)
next
  case (Suc d)
  then have kn: "k < n" and d: "d = n - Suc k" by simp_all
  let ?s = "mono_sample monoPCM bps k"
  let ?off = "k * bps * 2"
  have "Suc k * bps \<le> n * bps" using kn by (simp only: mult_le_mono1 Suc_leI)
  then have fit: "k * bps + bps \<le> length monoPCM" using assms by simp
  then have ls: "length ?s = bps" by (simp add: mono_sample_def)
  have sl: "go_slice monoPCM (int k * int bps) ((int k + 1) * int bps) = Some ?s"
  proof -
    have e: "(int k + 1) * int bps = int (k * bps + bps)" "int k * int bps = int (k * bps)"
      by (simp_all add: algebra_simps)
    show ?thesis
      unfolding e using go_slice_nat [of "k * bps" "k * bps + bps" monoPCM] fit
      by (simp add: mono_sample_def)
  qed
  have "Suc k * bps * 2 \<le> n * bps * 2" using kn by (simp only: mult_le_mono1 Suc_leI)
  then have fit2: "?off + bps + bps \<le> length stereo" using Suc.prems(2) by simp
  let ?st1 = "take ?off stereo @ ?s @ drop (?off + bps) stereo"
  let ?st2 = "take ?off stereo @ ?s @ ?s @ drop (?off + bps + bps) stereo"
  have c1: "copy_to stereo (int k * int bps * 2) ?s = Some ?st1"
  proof -
    have e: "int k * int bps * 2 = int ?off" by simp
    show ?thesis
      unfolding e using copy_to_nat [of ?off ?s stereo] fit2 ls by simp
  qed
  have l1: "length ?st1 = length stereo" using fit2 ls by simp
  have c2: "copy_to ?st1 (int k * int bps * 2 + int bps) ?s = Some ?st2"
  proof -
    have e: "int k * int bps * 2 + int bps = int (?off + bps)" by simp
    have "take (?off + bps) ?st1 = take ?off stereo @ ?s" using fit2 ls by simp
    moreover have "drop (?off + bps + bps) ?st1 = drop (?off + bps + bps) stereo"
      using fit2 ls by simp
    moreover have "copy_to ?st1 (int (?off + bps)) ?s
        = Some (take (?off + bps) ?st1 @ ?s @ drop (?off + bps + length ?s) ?st1)"
      by (rule copy_to_nat) (use fit2 ls l1 in simp)
    ultimately show ?thesis
      unfolding e by (simp only: ls append_assoc)
  qed
  have l2: "length ?st2 = n * bps * 2" using fit2 ls Suc.prems(2) by simp
  have "mono_loop monoPCM (int bps) [Suc k..<n] ?st2 =
        Some (take (Suc k * bps * 2) ?st2 @ stereo_frames monoPCM bps [Suc k..<n])"
    using Suc.hyps(1) [OF d _ l2] kn by simp
  moreover have "take (Suc k * bps * 2) ?st2 = take ?off stereo @ ?s @ ?s"
    using fit2 ls by (simp add: algebra_simps)
  moreover have "stereo_frames monoPCM bps [k..<n] = ?s @ ?s @ stereo_frames monoPCM bps [Suc k..<n]"
    using kn by (simp add: stereo_frames_def upt_conv_Cons)
  ultimately show ?case
    using kn sl c1 c2 by (simp add: upt_conv_Cons)
qed

lemma MonoToStereo_eq:
  assumes "PCMBytesPerSample bitDepth = int bps" and "0 < bps"
  shows "MonoToStereo monoPCM bitDepth
         = Some (stereo_frames monoPCM bps [0..<length monoPCM div bps])"
proof -
  let ?n = "length monoPCM div bps"
  have q: "go_div (len monoPCM) (int bps) = Some (int ?n)"
    using assms(2) by (simp add: go_div_def len_def sdiv_nonneg zdiv_int)
  have m: "make_bytes (int ?n * int bps * 2) = Some (replicate (?n * bps * 2) 0)"
  proof -
    have "make_bytes (int k) = Some (replicate k 0)" for k
      by (simp add: make_bytes_def)
    from this [of "?n * bps * 2"] show ?thesis by simp
  qed
  have fit: "?n * bps \<le> length monoPCM" by simp
  have "mono_loop monoPCM (int bps) [0..<?n] (replicate (?n * bps * 2) 0)
        = Some (take (0 * bps * 2) (replicate (?n * bps * 2) 0)
                @ stereo_frames monoPCM bps [0..<?n])"
    by (rule mono_loop_eq [OF fit]) simp_all
  then show ?thesis
    by (simp add: MonoToStereo_def assms(1) q m)
qed

lemma enumerated_bps:
  assumes "enumerated bitDepth"
  obtains bps where "PCMBytesPerSample bitDepth = int bps" and "0 < bps"
proof
  show "PCMBytesPerSample bitDepth = int (length (sample_bytes bitDepth 0))"
    using assms by (rule bytes_per_sample_enumerated)
  show "0 < length (sample_bytes bitDepth 0)"
    using assms by (auto simp: enumerated_def depth_defs sample_bytes_def Let_def)
qed

lemma stereo_frame_halves:
  assumes "i < n" and "n * bps \<le> length monoPCM" and "0 < bps"
  shows "go_slice monoPCM (int i * int bps) ((int i + 1) * int bps)
           = Some (mono_sample monoPCM bps i)"
    and "go_slice (stereo_frames monoPCM bps [0..<n]) (int i * int bps * 2)
           (int i * int bps * 2 + int bps) = Some (mono_sample monoPCM bps i)"
    and "go_slice (stereo_frames monoPCM bps [0..<n]) (int i * int bps * 2 + int bps)
           ((int i + 1) * int bps * 2) = Some (mono_sample monoPCM bps i)"
proof -
  let ?s = "mono_sample monoPCM bps"
  let ?f = "\<lambda>j. ?s j @ ?s j"
  let ?st = "stereo_frames monoPCM bps [0..<n]"
  have ls: "length (?s j) = bps" if "j < n" for j
  proof -
    have "Suc j * bps \<le> n * bps" using that by (simp only: mult_le_mono1 Suc_leI)
    then show ?thesis using assms(2) by (simp add: mono_sample_def)
  qed
  then have lf: "length (?f j) = 2 * bps" if "j < n" for j using that by simp
  from concat_chunk [of n ?f "2 * bps"] lf
  have len: "length ?st = n * (2 * bps)"
    and ch: "take (2 * bps) (drop (i * (2 * bps)) ?st) = ?s i @ ?s i"
    using assms(1) by (simp_all add: stereo_frames_def)
  have "Suc i * bps \<le> n * bps" using assms(1) by (simp only: mult_le_mono1 Suc_leI)
  then have fit: "i * bps + bps \<le> length monoPCM" using assms(2) by simp
  have e1: "(int i + 1) * int bps = int (i * bps + bps)" "int i * int bps = int (i * bps)"
    by (simp_all add: algebra_simps)
  show "go_slice monoPCM (int i * int bps) ((int i + 1) * int bps) = Some (?s i)"
    unfolding e1 using go_slice_nat [of "i * bps" "i * bps + bps" monoPCM] fit
    by (simp add: mono_sample_def)
  have "Suc i * (2 * bps) \<le> n * (2 * bps)" using assms(1) by (simp only: mult_le_mono1 Suc_leI)
  then have fit2: "i * (2 * bps) + 2 * bps \<le> length ?st" using len by simp
  have left: "take bps (drop (i * (2 * bps)) ?st) = ?s i"
  proof -
    have "take bps (drop (i * (2 * bps)) ?st) = take bps (take (2 * bps) (drop (i * (2 * bps)) ?st))"
      by (simp add: min_def)
    then show ?thesis using ch ls [OF assms(1)] by simp
  qed
  have right: "take bps (drop (i * (2 * bps) + bps) ?st) = ?s i"
  proof -
    have "take bps (drop (i * (2 * bps) + bps) ?st)
          = take bps (drop bps (take (2 * bps) (drop (i * (2 * bps)) ?st)))"
      by (simp add: drop_take add.commute)
    then show ?thesis using ch ls [OF assms(1)] by simp
  qed
  have e2: "int i * int bps * 2 = int (i * (2 * bps))"
    "int i * int bps * 2 + int bps = int (i * (2 * bps) + bps)"
    "(int i + 1) * int bps * 2 = int (i * (2 * bps) + 2 * bps)"
    by (simp_all add: algebra_simps)
  show "go_slice ?st (int i * int bps * 2) (int i * int bps * 2 + int bps) = Some (?s i)"
    unfolding e2 using go_slice_nat [of "i * (2 * bps)" "i * (2 * bps) + bps" ?st] fit2 left
    by simp
  show "go_slice ?st (int i * int bps * 2 + int bps) ((int i + 1) * int bps * 2) = Some (?s i)"
    unfolding e2 using go_slice_nat [of "i * (2 * bps) + bps" "i * (2 * bps) + 2 * bps" ?st] fit2 right
    by simp
qed

text \<open>
  C3. For every enumerated bit depth and every mono buffer, \<open>MonoToStereo\<close> returns a
  buffer of twice the bytes of the whole samples of the input: the bytes after the
  last whole sample are dropped, and the result has exactly twice the length of the
  input when that length is a multiple of the bytes per sample. For every frame index
  \<open>i\<close> below the number of whole samples, the left and the right sample of stereo
  frame \<open>i\<close> are the bytes of mono sample \<open>i\<close>.
\<close>

theorem MonoToStereo_duplicates:
  assumes "enumerated bitDepth"
  shows "\<exists>stereo. MonoToStereo monoPCM bitDepth = Some stereo
           \<and> len stereo
               = 2 * (len monoPCM div PCMBytesPerSample bitDepth * PCMBytesPerSample bitDepth)
           \<and> (len monoPCM mod PCMBytesPerSample bitDepth = 0 \<longrightarrow>
                 len stereo = 2 * len monoPCM)
           \<and> (\<forall>i. int i < len monoPCM div PCMBytesPerSample bitDepth \<longrightarrow>
                (\<exists>sample.
                    go_slice monoPCM (int i * PCMBytesPerSample bitDepth)
                      ((int i + 1) * PCMBytesPerSample bitDepth) = Some sample
                  \<and> go_slice stereo (int i * PCMBytesPerSample bitDepth * 2)
                      (int i * PCMBytesPerSample bitDepth * 2 + PCMBytesPerSample bitDepth)
                      = Some sample
                  \<and> go_slice stereo
                      (int i * PCMBytesPerSample bitDepth * 2 + PCMBytesPerSample bitDepth)
                      ((int i + 1) * PCMBytesPerSample bitDepth * 2) = Some sample))"
proof -
  from assms(1) obtain bps where b: "PCMBytesPerSample bitDepth = int bps" and p: "0 < bps"
    by (rule enumerated_bps)
  let ?n = "length monoPCM div bps"
  let ?st = "stereo_frames monoPCM bps [0..<?n]"
  have eq: "MonoToStereo monoPCM bitDepth = Some ?st"
    using b p by (rule MonoToStereo_eq)
  have fit: "?n * bps \<le> length monoPCM" by simp
  have ls: "length (mono_sample monoPCM bps j) = bps" if "j < ?n" for j
  proof -
    have "Suc j * bps \<le> ?n * bps" using that by (simp only: mult_le_mono1 Suc_leI)
    also note fit
    finally have "j * bps + bps \<le> length monoPCM" by simp
    then show ?thesis by (simp add: mono_sample_def)
  qed
  from concat_chunk [of ?n "\<lambda>j. mono_sample monoPCM bps j @ mono_sample monoPCM bps j" "2 * bps"] ls
  have "length ?st = ?n * (2 * bps)" by (simp add: stereo_frames_def)
  then have "length ?st = 2 * (?n * bps)" by (simp add: algebra_simps)
  then have "len ?st = 2 * int (?n * bps)" by (simp only: len_def)
  then have l: "len ?st = 2 * (len monoPCM div int bps * int bps)"
    by (simp add: len_def zdiv_int)
  have whole: "len ?st = 2 * len monoPCM" if "len monoPCM mod int bps = 0"
  proof -
    have "len monoPCM div int bps * int bps = len monoPCM"
      using that by (simp add: mod_0_imp_dvd)
    with l show ?thesis by simp
  qed
  have fr: "\<exists>sample.
        go_slice monoPCM (int i * int bps) ((int i + 1) * int bps) = Some sample
      \<and> go_slice ?st (int i * int bps * 2) (int i * int bps * 2 + int bps) = Some sample
      \<and> go_slice ?st (int i * int bps * 2 + int bps) ((int i + 1) * int bps * 2) = Some sample"
    if "int i < len monoPCM div int bps" for i
  proof -
    from that have "i < ?n" by (simp add: len_def flip: zdiv_int)
    from stereo_frame_halves [OF this fit p] show ?thesis by blast
  qed
  show ?thesis
    unfolding b eq using l whole fr by simp
qed

theorem MonoToStereo_duplicates_witness:
  "enumerated BitDepth16
   \<and> len [1, 2, 3, 4 :: byte] mod PCMBytesPerSample BitDepth16 = 0
   \<and> (\<exists>stereo. MonoToStereo [1, 2, 3, 4] BitDepth16 = Some stereo
         \<and> len stereo = 8
         \<and> go_slice stereo 4 6 = Some [3, 4]
         \<and> go_slice stereo 6 8 = Some [3, 4])"
proof -
  have b: "PCMBytesPerSample BitDepth16 = 2" by (simp add: PCMBytesPerSample_def depth_defs)
  have e: "enumerated BitDepth16" by (simp add: enumerated_def)
  have w: "len [1, 2, 3, 4 :: byte] mod PCMBytesPerSample BitDepth16 = 0"
    by (simp add: b len_def)
  from MonoToStereo_duplicates [OF e, of "[1, 2, 3, 4]"] w obtain stereo where
    m: "MonoToStereo [1, 2, 3, 4] BitDepth16 = Some stereo" and
    l: "len stereo = 2 * len [1, 2, 3, 4 :: byte]" and
    f: "\<forall>i. int i < len [1, 2, 3, 4 :: byte] div PCMBytesPerSample BitDepth16 \<longrightarrow>
          (\<exists>sample.
              go_slice [1, 2, 3, 4] (int i * PCMBytesPerSample BitDepth16)
                ((int i + 1) * PCMBytesPerSample BitDepth16) = Some sample
            \<and> go_slice stereo (int i * PCMBytesPerSample BitDepth16 * 2)
                (int i * PCMBytesPerSample BitDepth16 * 2 + PCMBytesPerSample BitDepth16)
                = Some sample
            \<and> go_slice stereo
                (int i * PCMBytesPerSample BitDepth16 * 2 + PCMBytesPerSample BitDepth16)
                ((int i + 1) * PCMBytesPerSample BitDepth16 * 2) = Some sample)"
    by blast
  have s: "go_slice [1, 2, 3, 4 :: byte] 2 4 = Some [3, 4]"
    by (simp add: go_slice_def len_def)
  from f [rule_format, of 1] have "go_slice stereo 4 6 = Some [3, 4] \<and> go_slice stereo 6 8 = Some [3, 4]"
    by (simp add: b len_def s)
  then show ?thesis
    using e w m l by (simp add: len_def)
qed

text \<open>
  A 16-bit mono buffer of three bytes holds one whole sample: the result has four
  bytes, not six.
\<close>

theorem MonoToStereo_drops_partial_sample:
  "enumerated BitDepth16
   \<and> MonoToStereo [1, 2, 3] BitDepth16 = Some [1, 2, 1, 2]
   \<and> len [1, 2, 1, 2 :: byte] \<noteq> 2 * len [1, 2, 3 :: byte]"
proof -
  have b: "PCMBytesPerSample BitDepth16 = int 2" by (simp add: PCMBytesPerSample_def depth_defs)
  have "MonoToStereo [1, 2, 3] BitDepth16 = Some (stereo_frames [1, 2, 3] 2 [0..<length [1, 2, 3 :: byte] div 2])"
    using b by (rule MonoToStereo_eq) simp
  then have "MonoToStereo [1, 2, 3] BitDepth16 = Some [1, 2, 1, 2]"
    by (simp add: stereo_frames_def mono_sample_def)
  then show ?thesis by (simp add: enumerated_def len_def)
qed

section \<open>The comparators return\<close>

text \<open>
  With a frame size that is positive as the 64-bit \<open>int\<close> holds it (and, for the exact
  comparator, a channel count and a number of bytes per sample that are not zero) both
  comparators return without a panic, given fuel for as many iterations of the diff
  reporter as the common length has bytes.
\<close>

lemma CompareLosslessSamples_returns:
  assumes "0 < go_mul (PCMBytesPerSample bitDepth) channels"
    and "len expected < 2 ^ 63" and "len actual < 2 ^ 63"
    and "nat (min (len expected) (len actual)) \<le> fuel"
  shows "fst (CompareLosslessSamples fuel t label expected actual bitDepth channels) = Returned"
proof (cases "filter (differs expected actual) [0..<nat (min (len expected) (len actual))]")
  case Nil
  then have "\<forall>i. i < length expected \<and> i < length actual \<longrightarrow> expected ! i = actual ! i"
    by (simp add: filter_empty_conv differs_def nat_min_len)
  then show ?thesis by (simp add: lossless_no_difference)
next
  case (Cons i rest)
  have "PCMBytesPerSample bitDepth * channels \<noteq> 0"
    using assms(1) by (auto simp: go_mul_def wrap64_def)
  then have nz: "PCMBytesPerSample bitDepth \<noteq> 0" "channels \<noteq> 0" by auto
  show ?thesis
    unfolding lossless_difference [OF nz Cons] using assms by (rule ShowDiffs_returns)
qed

lemma CompareLossySamples_returns:
  assumes "0 < go_mul (PCMBytesPerSample BitDepth16) channels"
    and "len pcmA < 2 ^ 63" and "len pcmB < 2 ^ 63"
    and "nat (min (len pcmA) (len pcmB)) \<le> fuel"
  shows "fst (CompareLossySamples fuel t pcmA pcmB bitDepth channels) = Returned"
proof (cases "bitDepth = BitDepth16")
  case False
  then show ?thesis by (simp add: CompareLossySamples_def)
next
  case True
  have d: "(if len pcmA - len pcmB < 0 then - (len pcmA - len pcmB) else len pcmA - len pcmB)
           = \<bar>len pcmA - len pcmB\<bar>"
    by simp
  obtain l m where loop:
    "lossy_loop pcmA pcmB [0..<nat (min (len pcmA) (len pcmB) sdiv 2)] (0, 0) = Some (l, m)"
    using lossy_loop_upto_total [OF refl, of pcmA pcmB "(0, 0)"] by fastforce
  show ?thesis
    unfolding True CompareLossySamples_def Let_def d
    using loop ShowDiffs_returns [OF assms] by simp
qed

end
